theory Spec2Isabelle
  imports Main
begin

section \<open>Strings\<close>

text \<open>
  File names are modelled as \<^typ>\<open>string\<close>. The code looks only for ASCII text in them
  (\<open>Seq\<close>, \<open>Project_\<close>, \<open>prompt\<close>, \<open>.txt\<close>, digits, word characters), so a character
  outside ASCII stands for a code unit that is none of those. JavaScript's case
  conversion maps no such unit to one of the letters the code looks for, and under the
  flag \<open>i\<close> (without \<open>u\<close>) no such unit is canonicalised to an ASCII letter. The two
  line terminators beyond ASCII (U+2028 and U+2029), which \<open>.\<close> does not match either,
  have no counterpart here.
\<close>

definition upper_letters :: string where
  "upper_letters = ''ABCDEFGHIJKLMNOPQRSTUVWXYZ''"

definition lower_letters :: string where
  "lower_letters = ''abcdefghijklmnopqrstuvwxyz''"

definition lower_char :: "char \<Rightarrow> char" where
  "lower_char c = (case map_of (zip upper_letters lower_letters) c of Some d \<Rightarrow> d | None \<Rightarrow> c)"

definition toLowerCase :: "string \<Rightarrow> string" where
  "toLowerCase s = map lower_char s"

fun startsWith :: "string \<Rightarrow> string \<Rightarrow> bool" where
  "startsWith s [] = True"
| "startsWith [] (p # ps) = False"
| "startsWith (x # xs) (p # ps) = (x = p \<and> startsWith xs ps)"

fun includes_str :: "string \<Rightarrow> string \<Rightarrow> bool" where
  "includes_str [] needle = (needle = [])"
| "includes_str (x # xs) needle = (startsWith (x # xs) needle \<or> includes_str xs needle)"

definition endsWith :: "string \<Rightarrow> string \<Rightarrow> bool" where
  "endsWith s suffix = startsWith (rev s) (rev suffix)"

section \<open>Regular expressions of the two scanners\<close>

text \<open>
  The scanners use two regular-expression literals, both with the flag \<open>i\<close>:
  \<^verbatim>\<open>/Seq(\d+)/i\<close> and
  \<^verbatim>\<open>/Project_(.*)_Seq(\d+)_(\w+)\.(txt|png|wav|mp4)/i\<close>.
  They are sequences of literal text, captured greedy repetitions of a character class and
  a captured alternation of literal text. \<open>Eos\<close> is the assertion \<open>$\<close>; no literal of the
  source uses it, it serves to say what matching a whole name means.
\<close>

datatype cls = AnyChar | Digit | WordChar

datatype item = Lit string | Cap_Star cls | Cap_Plus cls | Cap_Alt "string list" | Eos

definition is_digit :: "char \<Rightarrow> bool" where
  "is_digit c = (c \<in> set ''0123456789'')"

definition is_word :: "char \<Rightarrow> bool" where
  "is_word c = (c \<in> set (lower_letters @ upper_letters @ ''0123456789_''))"

definition is_line_terminator :: "char \<Rightarrow> bool" where
  "is_line_terminator c = (c = CHR 0x0A \<or> c = CHR 0x0D)"

fun cls_ok :: "cls \<Rightarrow> char \<Rightarrow> bool" where
  "cls_ok AnyChar c = (\<not> is_line_terminator c)"
| "cls_ok Digit c = is_digit c"
| "cls_ok WordChar c = is_word c"

text \<open>Under the flag \<open>i\<close> a pattern character matches itself in either case.\<close>

definition ci_eq :: "char \<Rightarrow> char \<Rightarrow> bool" where
  "ci_eq p x = (lower_char p = lower_char x)"

text \<open>\<open>lit_prefix l s\<close> matches the literal \<open>l\<close> at the start of \<open>s\<close> and returns the rest.\<close>

fun lit_prefix :: "string \<Rightarrow> string \<Rightarrow> string option" where
  "lit_prefix [] s = Some s"
| "lit_prefix (p # ps) [] = None"
| "lit_prefix (p # ps) (x # xs) = (if ci_eq p x then lit_prefix ps xs else None)"

text \<open>
  A greedy repetition first tries to take one more character and to match the rest of the
  pattern after it (the continuation \<open>k\<close>); only when that fails does it try the
  continuation where it stands. \<open>acc\<close> is the text taken so far, which is the capture.
\<close>

fun greedy :: "(char \<Rightarrow> bool) \<Rightarrow> (string \<Rightarrow> 'a option) \<Rightarrow> string \<Rightarrow> string \<Rightarrow> (string \<times> 'a) option" where
  "greedy p k acc [] = map_option (Pair acc) (k [])"
| "greedy p k acc (x # xs) =
     (if p x then
        (case greedy p k (acc @ [x]) xs of
           Some r \<Rightarrow> Some r
         | None \<Rightarrow> map_option (Pair acc) (k (x # xs)))
      else map_option (Pair acc) (k (x # xs)))"

text \<open>An alternation tries its alternatives from left to right.\<close>

fun alts :: "string list \<Rightarrow> (string \<Rightarrow> 'a option) \<Rightarrow> string \<Rightarrow> (string \<times> 'a) option" where
  "alts [] k s = None"
| "alts (a # as) k s =
     (case lit_prefix a s of
        None \<Rightarrow> alts as k s
      | Some rest \<Rightarrow>
          (case k rest of
             Some r \<Rightarrow> Some (take (length a) s, r)
           | None \<Rightarrow> alts as k s))"

text \<open>\<open>exec re s\<close> matches \<open>re\<close> at the start of \<open>s\<close> and returns the captures in order.\<close>

fun exec :: "item list \<Rightarrow> string \<Rightarrow> string list option" where
  "exec [] s = Some []"
| "exec (Lit l # re) s = (case lit_prefix l s of None \<Rightarrow> None | Some rest \<Rightarrow> exec re rest)"
| "exec (Cap_Star c # re) s =
     map_option (\<lambda>(g, gs). g # gs) (greedy (cls_ok c) (\<lambda>rest. exec re rest) [] s)"
| "exec (Cap_Plus c # re) s =
     (case s of
        [] \<Rightarrow> None
      | x # xs \<Rightarrow>
          if cls_ok c x
          then map_option (\<lambda>(g, gs). g # gs) (greedy (cls_ok c) (\<lambda>rest. exec re rest) [x] xs)
          else None)"
| "exec (Cap_Alt as # re) s =
     map_option (\<lambda>(g, gs). g # gs) (alts as (\<lambda>rest. exec re rest) s)"
| "exec (Eos # re) s = (if s = [] then exec re s else None)"

text \<open>
  \<open>name.match(re)\<close> without the flag \<open>g\<close>: the first start position, from the left, at which
  the pattern matches; \<open>None\<close> is JavaScript's \<open>null\<close>. The result holds the captures
  (\<open>match[1]\<close>, \<open>match[2]\<close>, ...).
\<close>

fun js_match :: "item list \<Rightarrow> string \<Rightarrow> string list option" where
  "js_match re [] = exec re []"
| "js_match re (x # xs) =
     (case exec re (x # xs) of Some gs \<Rightarrow> Some gs | None \<Rightarrow> js_match re xs)"

definition SEQ_PATTERN :: "item list" where
  "SEQ_PATTERN =
     [Lit ''Project_'', Cap_Star AnyChar, Lit ''_Seq'', Cap_Plus Digit, Lit ''_'',
      Cap_Plus WordChar, Lit ''.'', Cap_Alt [''txt'', ''png'', ''wav'', ''mp4'']]"

text \<open>The literal \<^verbatim>\<open>/Seq(\d+)/i\<close> is written twice in the application: in its scanner
  and in its drop handler.\<close>

definition scan_pattern :: "item list" where
  "scan_pattern = [Lit ''Seq'', Cap_Plus Digit]"

definition drop_pattern :: "item list" where
  "drop_pattern = [Lit ''Seq'', Cap_Plus Digit]"

text \<open>
  What each of the three places reads off a name: the application's scanner and its drop
  handler take \<open>match[1]\<close> when \<open>match && match[1]\<close> holds (an empty string is falsy);
  the strict scanner destructures \<open>[_, projectName, seqId, type]\<close> when \<open>match\<close> holds.
\<close>

definition scan_seqId :: "string \<Rightarrow> string option" where
  "scan_seqId name =
     (case js_match scan_pattern name of
        Some (g # _) \<Rightarrow> if g \<noteq> [] then Some g else None
      | _ \<Rightarrow> None)"

definition drop_seqId :: "string \<Rightarrow> string option" where
  "drop_seqId fileName =
     (case js_match drop_pattern fileName of
        Some (g # _) \<Rightarrow> if g \<noteq> [] then Some g else None
      | _ \<Rightarrow> None)"

definition strict_captures :: "string \<Rightarrow> (string \<times> string \<times> string) option" where
  "strict_captures name =
     (case js_match SEQ_PATTERN name of
        Some [pname, seqId, type, ext] \<Rightarrow> Some (pname, seqId, type)
      | _ \<Rightarrow> None)"

section \<open>Directory handles and the Library\<close>

text \<open>
  A directory entry is a file-system handle with a name and a kind. A directory's
  asynchronous iterator (\<open>values()\<close>, \<open>entries()\<close>) yields handles until it is done or
  throws; \<open>entries()\<close> yields each handle paired with its own name.
\<close>

datatype handle_kind = File | Directory

record fsHandle =
  name :: string
  kind :: handle_kind

datatype listing = Done | Throws | Yield fsHandle listing

fun listing_of :: "fsHandle list \<Rightarrow> listing" where
  "listing_of [] = Done"
| "listing_of (h # hs) = Yield h (listing_of hs)"

datatype error = EnumerationError | PermissionError | PickerError | ReadError | TypeError

datatype permission = Granted | Denied | Prompt

text \<open>
  A directory handle answers \<open>requestPermission\<close> with a permission state or throws, and
  enumerates as its \<open>contents\<close> say.
\<close>

record dirHandle =
  dir_name :: string
  requestPermission :: "error + permission"
  contents :: listing

text \<open>
  The \<open>assets\<close> of an entry is a plain JavaScript object created by \<open>{}\<close>: its own
  properties, and its prototype when a file handle has taken the place of the default
  one. An assignment \<open>assets[k] = v\<close> creates or overwrites the own property \<open>k\<close>, with
  two exceptions.
  \<^item> The key \<open>__proto__\<close>: the assignment runs the inherited setter, which replaces the
    object's prototype by \<open>v\<close> and creates no own property.
  \<^item> Once a file handle is the prototype, the object inherits the handle's attributes
    \<open>name\<close> and \<open>kind\<close>, which have a getter and no setter: assigning to one of them,
    when the object has no own property of that name, throws a \<open>TypeError\<close> (the scanner
    module is strict code).
  Everything else a file handle or the default prototype lets an object inherit is
  writable: the assignment creates the own property.
\<close>

record js_object =
  props :: "string \<rightharpoonup> fsHandle"
  proto :: "fsHandle option"

definition empty_object :: js_object where
  "empty_object = \<lparr>props = Map.empty, proto = None\<rparr>"

definition set_prop :: "js_object \<Rightarrow> string \<Rightarrow> fsHandle \<Rightarrow> js_object" where
  "set_prop obj k v = obj\<lparr>props := (props obj)(k \<mapsto> v)\<rparr>"

definition read_only_in_handle :: "string \<Rightarrow> bool" where
  "read_only_in_handle k = (k \<in> set [''name'', ''kind''])"

definition assign :: "js_object \<Rightarrow> string \<Rightarrow> fsHandle \<Rightarrow> error + js_object" where
  "assign obj k v =
     (if k = ''__proto__'' then Inr (obj\<lparr>proto := Some v\<rparr>)
      else if props obj k = None \<and> proto obj \<noteq> None \<and> read_only_in_handle k then Inl TypeError
      else Inr (set_prop obj k v))"

text \<open>
  The Library is an object keyed by sequence ID. The strict scanner creates its entries as
  \<open>{ id, projectName, assets }\<close>, the application's scanner as \<open>{ assets }\<close>: a field the
  object does not have is \<open>None\<close>.
\<close>

record sequenceEntry =
  id_field :: "string option"
  projectName :: "string option"
  assets :: js_object

type_synonym library = "string \<rightharpoonup> sequenceEntry"

section \<open>The strict scanner\<close>

text \<open>The body of the loop of \<open>scanSequences\<close> in the scanner module.\<close>

definition scan_entry :: "library \<Rightarrow> fsHandle \<Rightarrow> error + library" where
  "scan_entry library entry =
     (if kind entry = File then
        (case strict_captures (name entry) of
           Some (pname, seqId, type) \<Rightarrow>
             (let e = (case library seqId of
                         None \<Rightarrow> \<lparr>id_field = Some seqId, projectName = Some pname,
                                   assets = empty_object\<rparr>
                       | Some e \<Rightarrow> e)
              in case assign (assets e) (toLowerCase type) entry of
                   Inl err \<Rightarrow> Inl err
                 | Inr a \<Rightarrow> Inr (library(seqId \<mapsto> e\<lparr>assets := a\<rparr>)))
         | None \<Rightarrow> Inr library)
      else Inr library)"

fun scan_loop :: "library \<Rightarrow> listing \<Rightarrow> error + library" where
  "scan_loop library Done = Inr library"
| "scan_loop library Throws = Inl EnumerationError"
| "scan_loop library (Yield entry rest) =
     (case scan_entry library entry of
        Inl err \<Rightarrow> Inl err
      | Inr library' \<Rightarrow> scan_loop library' rest)"

definition scanSequences :: "dirHandle \<Rightarrow> error + library" where
  "scanSequences dirHandle = scan_loop Map.empty (contents dirHandle)"

section \<open>The application's scanner\<close>

text \<open>
  The body of the loop of the \<open>scanSequences\<close> inlined in the application. It assigns to
  the fixed keys \<open>prompt\<close> and \<open>script\<close> only, which are always plain property writes.
\<close>

definition scan_entry_app :: "library \<Rightarrow> fsHandle \<Rightarrow> library" where
  "scan_entry_app library handle =
     (if kind handle = File then
        (case scan_seqId (name handle) of
           Some seqId \<Rightarrow>
             (let e = (case library seqId of
                         None \<Rightarrow> \<lparr>id_field = None, projectName = None, assets = empty_object\<rparr>
                       | Some e \<Rightarrow> e);
                  lowerName = toLowerCase (name handle)
              in if includes_str lowerName ''prompt'' \<and> endsWith lowerName ''.txt''
                 then library(seqId \<mapsto> e\<lparr>assets := set_prop (assets e) ''prompt'' handle\<rparr>)
                 else if endsWith lowerName ''.txt''
                 then library(seqId \<mapsto> e\<lparr>assets := set_prop (assets e) ''script'' handle\<rparr>)
                 else library(seqId \<mapsto> e))
         | None \<Rightarrow> library)
      else library)"

fun scan_loop_app :: "library \<Rightarrow> listing \<Rightarrow> error + library" where
  "scan_loop_app library Done = Inr library"
| "scan_loop_app library Throws = Inl EnumerationError"
| "scan_loop_app library (Yield handle rest) = scan_loop_app (scan_entry_app library handle) rest"

definition scanSequences_app :: "dirHandle \<Rightarrow> error + library" where
  "scanSequences_app dirHandle = scan_loop_app Map.empty (contents dirHandle)"

section \<open>Storage of the directory handle\<close>

text \<open>
  The key-value store holds directory handles under string keys. The storage module
  re-checks the permission of the stored handle; the storage logic inlined in the
  application returns what the store holds.
\<close>

type_synonym idb = "string \<rightharpoonup> dirHandle"

definition getStoredDirectory :: "idb \<Rightarrow> error + dirHandle option" where
  "getStoredDirectory db =
     (case db ''project-root'' of
        None \<Rightarrow> Inr None
      | Some handle \<Rightarrow>
          (case requestPermission handle of
             Inl e \<Rightarrow> Inl e
           | Inr status \<Rightarrow> Inr (if status = Granted then Some handle else None)))"

definition saveDirectory :: "idb \<Rightarrow> dirHandle \<Rightarrow> idb" where
  "saveDirectory db handle = db(''project-root'' \<mapsto> handle)"

definition STORAGE_KEY :: string where
  "STORAGE_KEY = ''vibe_studio_handle''"

definition getStoredDirectory_app :: "idb \<Rightarrow> dirHandle option" where
  "getStoredDirectory_app db = db STORAGE_KEY"

definition saveDirectory_app :: "idb \<Rightarrow> dirHandle \<Rightarrow> idb" where
  "saveDirectory_app db handle = db(STORAGE_KEY \<mapsto> handle)"

section \<open>The application\<close>

text \<open>
  The state of the component: the two text fields, the Library, the connected folder, and
  the key-value store it persists the folder in.
\<close>

record app =
  prompt :: string
  script :: string
  projectLibrary :: library
  currentFolder :: "dirHandle option"
  store :: idb

text \<open>Start-up recovery. A scan that throws is caught and logged.\<close>

definition init :: "app \<Rightarrow> app" where
  "init st =
     (case getStoredDirectory_app (store st) of
        None \<Rightarrow> st
      | Some handle \<Rightarrow>
          (let st1 = st\<lparr>currentFolder := Some handle\<rparr>
           in case scanSequences_app handle of
                Inl e \<Rightarrow> st1
              | Inr library \<Rightarrow> st1\<lparr>projectLibrary := library\<rparr>))"

text \<open>
  Connecting a folder; \<open>picked\<close> is what the directory picker gives: a handle, or an
  error when the user cancels or access is refused. Every error is caught and logged.
\<close>

definition handleConnectFolder :: "error + dirHandle \<Rightarrow> app \<Rightarrow> app" where
  "handleConnectFolder picked st =
     (case picked of
        Inl e \<Rightarrow> st
      | Inr handle \<Rightarrow>
          (let st1 = st\<lparr>store := saveDirectory_app (store st) handle,
                         currentFolder := Some handle\<rparr>
           in case scanSequences_app handle of
                Inl e \<Rightarrow> st1
              | Inr library \<Rightarrow> st1\<lparr>projectLibrary := library\<rparr>))"

text \<open>
  The drop handler. \<open>droppedFiles\<close> are the names of the dropped files and \<open>readText h\<close> is
  what \<open>(await h.getFile()).text()\<close> gives: the text, or an error. The handler catches
  nothing: an error ends it, with the fields as they are by then. The result is the new
  state and the error thrown, if any.
\<close>

definition autofill :: "(fsHandle \<Rightarrow> error + string) \<Rightarrow> sequenceEntry \<Rightarrow> app \<Rightarrow> app \<times> error option" where
  "autofill readText sequenceData st =
     (case (case props (assets sequenceData) ''prompt'' of
              None \<Rightarrow> Inr st
            | Some h \<Rightarrow> (case readText h of Inl e \<Rightarrow> Inl e | Inr text \<Rightarrow> Inr (st\<lparr>prompt := text\<rparr>)))
      of
        Inl e \<Rightarrow> (st, Some e)
      | Inr st1 \<Rightarrow>
          (case props (assets sequenceData) ''script'' of
             None \<Rightarrow> (st1, None)
           | Some h \<Rightarrow>
               (case readText h of
                  Inl e \<Rightarrow> (st1, Some e)
                | Inr text \<Rightarrow> (st1\<lparr>script := text\<rparr>, None))))"

definition handleFileDrop :: "(fsHandle \<Rightarrow> error + string) \<Rightarrow> string list \<Rightarrow> app \<Rightarrow> app \<times> error option" where
  "handleFileDrop readText droppedFiles st =
     (case droppedFiles of
        [] \<Rightarrow> (st, None)
      | fileName # _ \<Rightarrow>
          (case drop_seqId fileName of
             Some seqId \<Rightarrow>
               (case projectLibrary st seqId of
                  None \<Rightarrow> (st, None)
                | Some sequenceData \<Rightarrow> autofill readText sequenceData st)
           | None \<Rightarrow> (st, None)))"

section \<open>What the patterns say\<close>

text \<open>
  The entries an enumeration yields before it ends or throws.
\<close>

fun yielded :: "listing \<Rightarrow> fsHandle list" where
  "yielded Done = []"
| "yielded Throws = []"
| "yielded (Yield h rest) = h # yielded rest"

text \<open>The strict scanner's loop over a list of handles: it stops at the first error.\<close>

fun scan_all :: "library \<Rightarrow> fsHandle list \<Rightarrow> error + library" where
  "scan_all lib [] = Inr lib"
| "scan_all lib (h # hs) =
     (case scan_entry lib h of Inl err \<Rightarrow> Inl err | Inr lib' \<Rightarrow> scan_all lib' hs)"

text \<open>
  \<open>derives re w gs\<close>: the text \<open>w\<close>, from its first to its last character, is an instance
  of the pattern \<open>re\<close> in which the groups stand for the texts \<open>gs\<close>. This is the reading
  of a pattern as a set of texts, with no order of attempts and no backtracking.
\<close>

fun derives :: "item list \<Rightarrow> string \<Rightarrow> string list \<Rightarrow> bool" where
  "derives [] w gs = (w = [] \<and> gs = [])"
| "derives (Lit l # re) w gs =
     (\<exists>u v. w = u @ v \<and> toLowerCase u = toLowerCase l \<and> derives re v gs)"
| "derives (Cap_Star c # re) w gs =
     (\<exists>u v gs'. w = u @ v \<and> gs = u # gs' \<and> list_all (cls_ok c) u \<and> derives re v gs')"
| "derives (Cap_Plus c # re) w gs =
     (\<exists>u v gs'. w = u @ v \<and> gs = u # gs' \<and> u \<noteq> [] \<and> list_all (cls_ok c) u \<and> derives re v gs')"
| "derives (Cap_Alt as # re) w gs =
     (\<exists>u v gs'. w = u @ v \<and> gs = u # gs' \<and> toLowerCase u \<in> toLowerCase ` set as
                 \<and> derives re v gs')"
| "derives (Eos # re) w gs = False"

text \<open>
  The strict convention in the words of the specification: the text \<open>w\<close> is
  \<open>Project_<name>_Seq<digits>_<kind>.<ext>\<close>, letters of the fixed parts in either case,
  with the extension one of txt, png, wav, mp4. The \<open><name>\<close> is any text without a line
  break, since \<open>.\<close> in the source's pattern matches no line terminator.
\<close>

definition strict_shape :: "string \<Rightarrow> string \<Rightarrow> string \<Rightarrow> string \<Rightarrow> string \<Rightarrow> bool" where
  "strict_shape w pname digits kind_label ext \<longleftrightarrow>
     (\<exists>a b. w = a @ pname @ b @ digits @ ''_'' @ kind_label @ ''.'' @ ext
        \<and> toLowerCase a = ''project_'' \<and> toLowerCase b = ''_seq''
        \<and> list_all (\<lambda>c. \<not> is_line_terminator c) pname
        \<and> digits \<noteq> [] \<and> list_all is_digit digits
        \<and> kind_label \<noteq> [] \<and> list_all is_word kind_label
        \<and> toLowerCase ext \<in> set [''txt'', ''png'', ''wav'', ''mp4''])"

text \<open>
  A name matches a pattern exactly when the pattern, started at the first character,
  reaches the end of the name: the pattern between \<open>^\<close> and \<open>$\<close>.
\<close>

definition matches_exactly :: "item list \<Rightarrow> string \<Rightarrow> bool" where
  "matches_exactly re w = (exec (re @ [Eos]) w \<noteq> None)"

text \<open>The status line counts the keys of the Library.\<close>

definition sequences_active :: "library \<Rightarrow> nat" where
  "sequences_active lib = card (dom lib)"

section \<open>What a scan files a handle under\<close>

text \<open>
  The sequence ID and the asset key under which each scanner files a directory entry:
  \<open>None\<close> when the entry is skipped, no key when the application's scanner creates the
  entry of the sequence without classifying the file. \<open>merged slot hs lib\<close> says that the
  Library \<open>lib\<close> is the handles \<open>hs\<close> merged in their order: one entry for each sequence
  ID some handle is filed under, holding under each key the last handle filed under it.
\<close>

definition strict_slot :: "fsHandle \<Rightarrow> (string \<times> string option) option" where
  "strict_slot h =
     (if kind h = File then
        (case strict_captures (name h) of
           None \<Rightarrow> None
         | Some (pn, sid, t) \<Rightarrow> Some (sid, Some (toLowerCase t)))
      else None)"

definition app_slot :: "fsHandle \<Rightarrow> (string \<times> string option) option" where
  "app_slot h =
     (if kind h = File then
        (case scan_seqId (name h) of
           None \<Rightarrow> None
         | Some sid \<Rightarrow>
             Some (sid,
               if includes_str (toLowerCase (name h)) ''prompt'' \<and> endsWith (toLowerCase (name h)) ''.txt''
               then Some ''prompt''
               else if endsWith (toLowerCase (name h)) ''.txt'' then Some ''script'' else None))
      else None)"

definition put_asset :: "string option \<Rightarrow> fsHandle \<Rightarrow> sequenceEntry \<Rightarrow> sequenceEntry" where
  "put_asset c h e = (case c of None \<Rightarrow> e | Some k \<Rightarrow> e\<lparr>assets := set_prop (assets e) k h\<rparr>)"

text \<open>
  Filing a handle by plain property writes: the entry of its sequence, created by \<open>fresh\<close>
  when there is none yet, receives the handle under its key.
\<close>

definition file_under ::
  "(fsHandle \<Rightarrow> (string \<times> string option) option) \<Rightarrow> (fsHandle \<Rightarrow> sequenceEntry)
     \<Rightarrow> library \<Rightarrow> fsHandle \<Rightarrow> library" where
  "file_under slot fresh lib h =
     (case slot h of
        None \<Rightarrow> lib
      | Some (sid, c) \<Rightarrow>
          lib(sid \<mapsto> put_asset c h (case lib sid of None \<Rightarrow> fresh h | Some e \<Rightarrow> e)))"

definition merged :: "(fsHandle \<Rightarrow> (string \<times> string option) option) \<Rightarrow> fsHandle list \<Rightarrow> library \<Rightarrow> bool" where
  "merged slot hs lib \<longleftrightarrow>
     (\<forall>sid.
        (lib sid = None \<longrightarrow> (\<forall>h\<in>set hs. \<forall>c. slot h \<noteq> Some (sid, c)))
        \<and> (\<forall>e. lib sid = Some e \<longrightarrow>
              (\<exists>h\<in>set hs. \<exists>c. slot h = Some (sid, c))
              \<and> (\<forall>k. props (assets e) k = find (\<lambda>h. slot h = Some (sid, Some k)) (rev hs))
              \<and> proto (assets e) = None))"

definition fresh_app :: "fsHandle \<Rightarrow> sequenceEntry" where
  "fresh_app h = \<lparr>id_field = None, projectName = None, assets = empty_object\<rparr>"

definition fresh_strict :: "fsHandle \<Rightarrow> sequenceEntry" where
  "fresh_strict h =
     (case strict_captures (name h) of
        Some (pn, sid, t) \<Rightarrow> \<lparr>id_field = Some sid, projectName = Some pn, assets = empty_object\<rparr>
      | None \<Rightarrow> \<lparr>id_field = None, projectName = None, assets = empty_object\<rparr>)"

section \<open>Example inputs\<close>

definition fileNamed :: "string \<Rightarrow> fsHandle" where
  "fileNamed n = \<lparr>name = n, kind = File\<rparr>"

definition folder :: "fsHandle list \<Rightarrow> dirHandle" where
  "folder hs = \<lparr>dir_name = ''Vibe-Studio'', requestPermission = Inr Granted, contents = listing_of hs\<rparr>"

text \<open>A folder whose enumeration throws after its first entry.\<close>

definition broken_folder :: dirHandle where
  "broken_folder =
     \<lparr>dir_name = ''Vibe-Studio'', requestPermission = Inr Granted,
      contents = Yield (fileNamed ''Seq01_Script.txt'') Throws\<rparr>"

text \<open>A stored folder whose permission has been revoked: it cannot be enumerated.\<close>

definition revoked_folder :: dirHandle where
  "revoked_folder = \<lparr>dir_name = ''Vibe-Studio'', requestPermission = Inr Denied, contents = Throws\<rparr>"

definition app0 :: app where
  "app0 = \<lparr>prompt = ''old prompt'', script = ''old script'', projectLibrary = Map.empty,
           currentFolder = None, store = Map.empty\<rparr>"

definition script_only :: sequenceEntry where
  "script_only =
     \<lparr>id_field = None, projectName = None,
      assets = \<lparr>props = [''script'' \<mapsto> fileNamed ''Seq01_Script.txt''], proto = None\<rparr>\<rparr>"

definition app1 :: app where
  "app1 = app0\<lparr>projectLibrary := [''01'' \<mapsto> script_only]\<rparr>"

definition prompt_only :: sequenceEntry where
  "prompt_only =
     \<lparr>id_field = None, projectName = None,
      assets = \<lparr>props = [''prompt'' \<mapsto> fileNamed ''Seq01_Prompt.txt''], proto = None\<rparr>\<rparr>"

definition strict_script :: sequenceEntry where
  "strict_script =
     \<lparr>id_field = Some ''01'', projectName = Some ''X'',
      assets = \<lparr>props = [''script'' \<mapsto> fileNamed ''Project_X_Seq01_Script.txt''], proto = None\<rparr>\<rparr>"

section \<open>Evaluation of the definitions on concrete names\<close>

lemmas char_defs =
  ci_eq_def lower_char_def upper_letters_def lower_letters_def is_digit_def is_word_def
  is_line_terminator_def toLowerCase_def

section \<open>The matcher against the reading of a pattern as a set of texts\<close>

lemma lit_prefix_Some:
  "lit_prefix l s = Some rest \<longleftrightarrow> (\<exists>u. s = u @ rest \<and> length u = length l \<and> toLowerCase u = toLowerCase l)"
proof (induction l s rule: lit_prefix.induct)
  case (1 s)
  then show ?case by (auto simp: toLowerCase_def)
next
  case (2 p ps)
  then show ?case by (auto simp: toLowerCase_def)
next
  case (3 p ps x xs)
  show ?case
  proof
    assume "lit_prefix (p # ps) (x # xs) = Some rest"
    then have c: "ci_eq p x" and r: "lit_prefix ps xs = Some rest"
      by (auto split: if_splits)
    from r 3 c obtain u where "xs = u @ rest" "length u = length ps" "toLowerCase u = toLowerCase ps"
      by auto
    then have "x # xs = (x # u) @ rest \<and> length (x # u) = length (p # ps) \<and> toLowerCase (x # u) = toLowerCase (p # ps)"
      using c by (simp add: toLowerCase_def ci_eq_def)
    then show "\<exists>u. x # xs = u @ rest \<and> length u = length (p # ps) \<and> toLowerCase u = toLowerCase (p # ps)"
      by blast
  next
    assume "\<exists>u. x # xs = u @ rest \<and> length u = length (p # ps) \<and> toLowerCase u = toLowerCase (p # ps)"
    then obtain u where u: "x # xs = u @ rest" "length u = length (p # ps)" "toLowerCase u = toLowerCase (p # ps)"
      by blast
    then obtain u' where u': "u = x # u'" by (cases u) auto
    with u have "ci_eq p x" "xs = u' @ rest" "length u' = length ps" "toLowerCase u' = toLowerCase ps"
      by (auto simp: toLowerCase_def ci_eq_def)
    with 3 show "lit_prefix (p # ps) (x # xs) = Some rest" by auto
  qed
qed

lemma greedy_sound:
  "greedy p k acc s = Some (g, r) \<Longrightarrow>
     \<exists>n. n \<le> length (takeWhile p s) \<and> g = acc @ take n s \<and> k (drop n s) = Some r"
proof (induction s arbitrary: acc)
  case Nil
  then show ?case by auto
next
  case (Cons x xs)
  show ?case
  proof (cases "p x")
    case False
    with Cons.prems show ?thesis by (intro exI [of _ 0]) auto
  next
    case True
    show ?thesis
    proof (cases "greedy p k (acc @ [x]) xs")
      case None
      with True Cons.prems show ?thesis by (intro exI [of _ 0]) auto
    next
      case (Some res)
      with True Cons.prems have "greedy p k (acc @ [x]) xs = Some (g, r)" by simp
      from Cons.IH [OF this] obtain n where
        "n \<le> length (takeWhile p xs)" "g = (acc @ [x]) @ take n xs" "k (drop n xs) = Some r"
        by blast
      with True show ?thesis by (intro exI [of _ "Suc n"]) simp
    qed
  qed
qed

lemma greedy_complete:
  "n \<le> length (takeWhile p s) \<Longrightarrow> k (drop n s) \<noteq> None \<Longrightarrow> greedy p k acc s \<noteq> None"
proof (induction s arbitrary: acc n)
  case Nil
  then show ?case by auto
next
  case (Cons x xs)
  show ?case
  proof (cases n)
    case 0
    with Cons.prems show ?thesis by (auto split: option.splits)
  next
    case (Suc m)
    with Cons.prems have px: "p x" by (auto split: if_splits)
    with Suc Cons.prems have "m \<le> length (takeWhile p xs)" "k (drop m xs) \<noteq> None" by auto
    from Cons.IH [OF this] have "greedy p k (acc @ [x]) xs \<noteq> None" .
    with px show ?thesis by (auto split: option.splits)
  qed
qed

lemma alts_sound:
  "alts as k s = Some (g, r) \<Longrightarrow>
     \<exists>a rest. a \<in> set as \<and> lit_prefix a s = Some rest \<and> k rest = Some r \<and> g = take (length a) s"
  by (induction as) (auto split: option.splits)

lemma alts_complete:
  "a \<in> set as \<Longrightarrow> lit_prefix a s = Some rest \<Longrightarrow> k rest \<noteq> None \<Longrightarrow> alts as k s \<noteq> None"
  by (induction as) (auto split: option.splits)


lemma take_le_takeWhile: "n \<le> length (takeWhile p s) \<Longrightarrow> list_all p (take n s)"
proof (induction s arbitrary: n)
  case Nil
  then show ?case by simp
next
  case (Cons x xs)
  then show ?case by (cases n) (auto split: if_splits)
qed

lemma length_le_takeWhile: "list_all p u \<Longrightarrow> length u \<le> length (takeWhile p (u @ w))"
  by (simp add: list_all_iff)

lemma exec_sound:
  "Eos \<notin> set re \<Longrightarrow> exec (re @ re2) s = Some gs \<Longrightarrow>
     \<exists>u v g1 g2. s = u @ v \<and> derives re u g1 \<and> exec re2 v = Some g2 \<and> gs = g1 @ g2"
proof (induction re arbitrary: s gs)
  case Nil
  then show ?case by auto
next
  case (Cons i re)
  from Cons.prems(1) have noEos: "Eos \<notin> set re" by simp
  show ?case
  proof (cases i)
    case (Lit l)
    with Cons.prems(2) obtain rest where l: "lit_prefix l s = Some rest"
      and e: "exec (re @ re2) rest = Some gs"
      by (auto split: option.splits)
    from l obtain u0 where u0: "s = u0 @ rest" "toLowerCase u0 = toLowerCase l"
      by (auto simp: lit_prefix_Some)
    from Cons.IH [OF noEos e] obtain u v g1 g2 where
      "rest = u @ v" "derives re u g1" "exec re2 v = Some g2" "gs = g1 @ g2" by blast
    with u0 Lit have "s = (u0 @ u) @ v \<and> derives (i # re) (u0 @ u) g1 \<and> exec re2 v = Some g2 \<and> gs = g1 @ g2"
      by auto
    then show ?thesis by blast
  next
    case (Cap_Star c)
    with Cons.prems(2) obtain g r where gr: "greedy (cls_ok c) (exec (re @ re2)) [] s = Some (g, r)"
      and gs: "gs = g # r"
      by auto
    from greedy_sound [OF gr] obtain n where n: "n \<le> length (takeWhile (cls_ok c) s)"
      "g = take n s" "exec (re @ re2) (drop n s) = Some r" by auto
    from Cons.IH [OF noEos n(3)] obtain u v g1 g2 where
      "drop n s = u @ v" "derives re u g1" "exec re2 v = Some g2" "r = g1 @ g2" by blast
    moreover have "s = take n s @ drop n s" by simp
    moreover have "list_all (cls_ok c) (take n s)" using n(1) by (rule take_le_takeWhile)
    ultimately have "s = (take n s @ u) @ v \<and> derives (i # re) (take n s @ u) (g # g1)
        \<and> exec re2 v = Some g2 \<and> gs = (g # g1) @ g2"
      using Cap_Star gs n(2) by auto
    then show ?thesis by blast
  next
    case (Cap_Plus c)
    with Cons.prems(2) obtain x xs g r where s: "s = x # xs" and x: "cls_ok c x"
      and gr: "greedy (cls_ok c) (exec (re @ re2)) [x] xs = Some (g, r)"
      and gs: "gs = g # r"
      by (auto split: list.splits if_splits)
    from greedy_sound [OF gr] obtain n where n: "n \<le> length (takeWhile (cls_ok c) xs)"
      "g = [x] @ take n xs" "exec (re @ re2) (drop n xs) = Some r" by auto
    from Cons.IH [OF noEos n(3)] obtain u v g1 g2 where
      "drop n xs = u @ v" "derives re u g1" "exec re2 v = Some g2" "r = g1 @ g2" by blast
    moreover have "xs = take n xs @ drop n xs" by simp
    moreover have "list_all (cls_ok c) (take n xs)" using n(1) by (rule take_le_takeWhile)
    ultimately have "s = (g @ u) @ v \<and> derives (i # re) (g @ u) (g # g1)
        \<and> exec re2 v = Some g2 \<and> gs = (g # g1) @ g2"
      using Cap_Plus gs n(2) s x by auto
    then show ?thesis by blast
  next
    case (Cap_Alt as)
    with Cons.prems(2) obtain g r where gr: "alts as (exec (re @ re2)) s = Some (g, r)"
      and gs: "gs = g # r"
      by auto
    from alts_sound [OF gr] obtain a rest where a: "a \<in> set as" "lit_prefix a s = Some rest"
      "exec (re @ re2) rest = Some r" "g = take (length a) s" by blast
    from a(2) obtain u0 where u0: "s = u0 @ rest" "length u0 = length a" "toLowerCase u0 = toLowerCase a"
      by (auto simp: lit_prefix_Some)
    with a(4) have g: "g = u0" by simp
    from Cons.IH [OF noEos a(3)] obtain u v g1 g2 where
      "rest = u @ v" "derives re u g1" "exec re2 v = Some g2" "r = g1 @ g2" by blast
    with u0 g gs a(1) Cap_Alt have "s = (u0 @ u) @ v \<and> derives (i # re) (u0 @ u) (g # g1)
        \<and> exec re2 v = Some g2 \<and> gs = (g # g1) @ g2"
      by auto
    then show ?thesis by blast
  next
    case Eos
    with Cons.prems(1) show ?thesis by simp
  qed
qed

lemma lit_prefix_append:
  "toLowerCase u = toLowerCase l \<Longrightarrow> lit_prefix l (u @ rest) = Some rest"
proof -
  assume a: "toLowerCase u = toLowerCase l"
  then have "length u = length l" by (metis length_map toLowerCase_def)
  with a show ?thesis by (auto simp: lit_prefix_Some)
qed

lemma exec_complete:
  "derives re u g1 \<Longrightarrow> exec re2 v \<noteq> None \<Longrightarrow> exec (re @ re2) (u @ v) \<noteq> None"
proof (induction re arbitrary: u g1)
  case Nil
  then show ?case by simp
next
  case (Cons i re)
  show ?case
  proof (cases i)
    case (Lit l)
    with Cons.prems(1) obtain u0 u1 where u: "u = u0 @ u1" "toLowerCase u0 = toLowerCase l"
      "derives re u1 g1" by auto
    from Cons.IH [OF u(3) Cons.prems(2)] have "exec (re @ re2) (u1 @ v) \<noteq> None" .
    with u(1) lit_prefix_append [OF u(2), of "u1 @ v"] Lit show ?thesis by auto
  next
    case (Cap_Star c)
    with Cons.prems(1) obtain u0 u1 g' where u: "u = u0 @ u1" "list_all (cls_ok c) u0"
      "derives re u1 g'" by auto
    from Cons.IH [OF u(3) Cons.prems(2)] have "exec (re @ re2) (drop (length u0) (u @ v)) \<noteq> None"
      using u(1) by simp
    moreover have "length u0 \<le> length (takeWhile (cls_ok c) (u @ v))"
      using length_le_takeWhile [OF u(2), of "u1 @ v"] u(1) by simp
    ultimately have "greedy (cls_ok c) (exec (re @ re2)) [] (u @ v) \<noteq> None"
      by (rule greedy_complete [rotated])
    with Cap_Star show ?thesis by auto
  next
    case (Cap_Plus c)
    with Cons.prems(1) obtain u0 u1 g' where u: "u = u0 @ u1" "u0 \<noteq> []" "list_all (cls_ok c) u0"
      "derives re u1 g'" by auto
    from u(2) obtain x xs where u0: "u0 = x # xs" by (cases u0) auto
    from Cons.IH [OF u(4) Cons.prems(2)] have "exec (re @ re2) (drop (length xs) (xs @ u1 @ v)) \<noteq> None"
      by simp
    moreover have "length xs \<le> length (takeWhile (cls_ok c) (xs @ u1 @ v))"
      using length_le_takeWhile [of "cls_ok c" xs "u1 @ v"] u(3) u0 by simp
    ultimately have "greedy (cls_ok c) (exec (re @ re2)) [x] (xs @ u1 @ v) \<noteq> None"
      by (rule greedy_complete [rotated])
    with Cap_Plus u(1,3) u0 show ?thesis by auto
  next
    case (Cap_Alt as)
    with Cons.prems(1) obtain u0 u1 g' a where u: "u = u0 @ u1" "a \<in> set as"
      "toLowerCase u0 = toLowerCase a" "derives re u1 g'" by auto
    from Cons.IH [OF u(4) Cons.prems(2)] have "exec (re @ re2) (u1 @ v) \<noteq> None" .
    with alts_complete [OF u(2) lit_prefix_append [OF u(3), of "u1 @ v"], of "exec (re @ re2)"]
    have "alts as (exec (re @ re2)) (u @ v) \<noteq> None" using u(1) by simp
    with Cap_Alt show ?thesis by auto
  next
    case Eos
    with Cons.prems(1) show ?thesis by simp
  qed
qed

lemma js_match_sound:
  "js_match re s = Some gs \<Longrightarrow> \<exists>pre t. s = pre @ t \<and> exec re t = Some gs"
proof (induction s)
  case Nil
  then show ?case by simp
next
  case (Cons x xs)
  show ?case
  proof (cases "exec re (x # xs)")
    case (Some a)
    with Cons.prems have "x # xs = [] @ (x # xs) \<and> exec re (x # xs) = Some gs" by simp
    then show ?thesis by blast
  next
    case None
    with Cons.prems have "js_match re xs = Some gs" by simp
    from Cons.IH [OF this] obtain pre t where "xs = pre @ t" "exec re t = Some gs" by blast
    then have "x # xs = (x # pre) @ t \<and> exec re t = Some gs" by simp
    then show ?thesis by blast
  qed
qed

lemma js_match_complete:
  "exec re t \<noteq> None \<Longrightarrow> js_match re (pre @ t) \<noteq> None"
proof (induction pre)
  case Nil
  then show ?case by (cases t) auto
next
  case (Cons x pre)
  then show ?case by (auto split: option.splits)
qed


lemma lower_char_underscore: "lower_char c = CHR ''_'' \<longleftrightarrow> c = CHR ''_''"
  by (auto simp: lower_char_def upper_letters_def lower_letters_def)

lemma lower_char_dot: "lower_char c = CHR ''.'' \<longleftrightarrow> c = CHR ''.''"
  by (auto simp: lower_char_def upper_letters_def lower_letters_def)

lemma toLowerCase_underscore: "toLowerCase u = toLowerCase ''_'' \<longleftrightarrow> u = ''_''"
proof -
  have e: "map lower_char ''_'' = ''_''"
    by (simp add: lower_char_def upper_letters_def lower_letters_def)
  show ?thesis
    unfolding toLowerCase_def e by (cases u) (auto simp: lower_char_underscore)
qed

lemma toLowerCase_dot: "toLowerCase u = toLowerCase ''.'' \<longleftrightarrow> u = ''.''"
proof -
  have e: "map lower_char ''.'' = ''.''"
    by (simp add: lower_char_def upper_letters_def lower_letters_def)
  show ?thesis
    unfolding toLowerCase_def e by (cases u) (auto simp: lower_char_dot)
qed

lemma toLowerCase_Project: "toLowerCase ''Project_'' = ''project_''"
  by (simp add: char_defs)

lemma toLowerCase_Seq: "toLowerCase ''_Seq'' = ''_seq''"
  by (simp add: char_defs)

lemma toLowerCase_exts:
  "toLowerCase ` set [''txt'', ''png'', ''wav'', ''mp4''] = set [''txt'', ''png'', ''wav'', ''mp4'']"
  by (simp add: char_defs)

lemma cls_ok_AnyChar: "cls_ok AnyChar = (\<lambda>c. \<not> is_line_terminator c)"
  by (rule ext) simp

lemma cls_ok_Digit: "cls_ok Digit = is_digit"
  by (rule ext) simp

lemma cls_ok_WordChar: "cls_ok WordChar = is_word"
  by (rule ext) simp

lemma derives_SEQ_PATTERN:
  "derives SEQ_PATTERN w gs \<longleftrightarrow>
     (\<exists>pn sid t ext. gs = [pn, sid, t, ext] \<and> strict_shape w pn sid t ext)"
  unfolding SEQ_PATTERN_def strict_shape_def derives.simps toLowerCase_underscore toLowerCase_dot
    toLowerCase_Project toLowerCase_Seq toLowerCase_exts cls_ok_AnyChar cls_ok_Digit cls_ok_WordChar
  by (auto; blast)

section \<open>The scanning loops over lists of handles\<close>

lemma scan_loop_listing_of: "scan_loop lib (listing_of hs) = scan_all lib hs"
  by (induction hs arbitrary: lib) (simp_all split: sum.splits)

lemma scan_loop_yielded:
  "scan_loop lib l = Inr lib' \<Longrightarrow> scan_all lib (yielded l) = Inr lib'"
  by (induction l arbitrary: lib) (auto split: sum.splits)

lemma scan_all_append:
  "scan_all lib (xs @ ys) =
     (case scan_all lib xs of Inl err \<Rightarrow> Inl err | Inr lib' \<Rightarrow> scan_all lib' ys)"
  by (induction xs arbitrary: lib) (simp_all split: sum.splits)

lemma scan_all_skip:
  assumes "\<And>lib. scan_entry lib entry = Inr lib"
  shows "scan_all lib (xs @ entry # ys) = scan_all lib (xs @ ys)"
  by (simp add: scan_all_append assms split: sum.splits)

lemma scan_loop_app_listing_of:
  "scan_loop_app lib (listing_of hs) = Inr (foldl scan_entry_app lib hs)"
  by (induction hs arbitrary: lib) simp_all

lemma scan_loop_app_yielded:
  "scan_loop_app lib l = Inr lib' \<Longrightarrow> lib' = foldl scan_entry_app lib (yielded l)"
  by (induction l arbitrary: lib) simp_all

lemma scan_entry_unmatched:
  "js_match SEQ_PATTERN (name entry) = None \<Longrightarrow> scan_entry lib entry = Inr lib"
  by (simp add: scan_entry_def strict_captures_def)

lemma scan_entry_app_unmatched:
  "js_match scan_pattern (name h) = None \<Longrightarrow> scan_entry_app lib h = lib"
  by (simp add: scan_entry_app_def scan_seqId_def)

section \<open>Entries without assets\<close>

lemma dom_scan_entry_app: "dom lib \<subseteq> dom (scan_entry_app lib h)"
  by (auto simp: scan_entry_app_def Let_def split: option.splits)

lemma dom_foldl_scan_entry_app: "dom lib \<subseteq> dom (foldl scan_entry_app lib hs)"
proof (induction hs arbitrary: lib)
  case Nil
  show ?case by simp
next
  case (Cons h hs)
  have "dom lib \<subseteq> dom (scan_entry_app lib h)" by (rule dom_scan_entry_app)
  also have "\<dots> \<subseteq> dom (foldl scan_entry_app (scan_entry_app lib h) hs)" by (rule Cons.IH)
  finally show ?case by simp
qed

lemma scan_entry_app_creates:
  "kind h = File \<Longrightarrow> scan_seqId (name h) = Some seqId \<Longrightarrow> seqId \<in> dom (scan_entry_app lib h)"
  by (auto simp: scan_entry_app_def Let_def)

lemma foldl_scan_entry_app_has:
  assumes "h \<in> set hs" "kind h = File" "scan_seqId (name h) = Some seqId"
  shows "seqId \<in> dom (foldl scan_entry_app lib hs)"
proof -
  from assms(1) obtain as bs where hs: "hs = as @ h # bs"
    by (auto simp: in_set_conv_decomp)
  have "seqId \<in> dom (scan_entry_app (foldl scan_entry_app lib as) h)"
    using assms(2,3) by (rule scan_entry_app_creates)
  then show ?thesis
    using dom_foldl_scan_entry_app [of "scan_entry_app (foldl scan_entry_app lib as) h" bs]
    by (auto simp: hs)
qed

text \<open>
  Claim C10. Under the application's scanner a file whose name holds \<open>Seq<digits>\<close> and
  does not end in \<open>.txt\<close> (so it is neither a prompt nor a script) still makes the Library
  hold an entry for its sequence ID after the scan of any directory it is in; scanned
  alone it gives an entry whose assets are empty, and the status line counts that entry.
\<close>

theorem unclassified_file_creates_entry:
  assumes "kind h = File" and "scan_seqId (name h) = Some seqId"
    and "\<not> endsWith (toLowerCase (name h)) ''.txt''"
  shows "(h \<in> set hs \<longrightarrow>
           (\<exists>lib e. scanSequences_app (d\<lparr>contents := listing_of hs\<rparr>) = Inr lib \<and> lib seqId = Some e))
       \<and> scanSequences_app (d\<lparr>contents := listing_of [h]\<rparr>)
           = Inr [seqId \<mapsto> \<lparr>id_field = None, projectName = None, assets = empty_object\<rparr>]
       \<and> sequences_active [seqId \<mapsto> \<lparr>id_field = None, projectName = None, assets = empty_object\<rparr>] = 1"
proof (intro conjI impI)
  assume "h \<in> set hs"
  then have "seqId \<in> dom (foldl scan_entry_app Map.empty hs)"
    using assms(1,2) by (rule foldl_scan_entry_app_has)
  then show "\<exists>lib e. scanSequences_app (d\<lparr>contents := listing_of hs\<rparr>) = Inr lib \<and> lib seqId = Some e"
    by (auto simp: scanSequences_app_def scan_loop_app_listing_of)
next
  show "scanSequences_app (d\<lparr>contents := listing_of [h]\<rparr>)
           = Inr [seqId \<mapsto> \<lparr>id_field = None, projectName = None, assets = empty_object\<rparr>]"
    using assms by (simp add: scanSequences_app_def scan_entry_app_def)
next
  show "sequences_active [seqId \<mapsto> \<lparr>id_field = None, projectName = None, assets = empty_object\<rparr>] = 1"
    by (simp add: sequences_active_def)
qed

theorem unclassified_file_creates_entry_witness:
  "scanSequences_app (folder [fileNamed ''Seq01_View.jpg''])
     = Inr [''01'' \<mapsto> \<lparr>id_field = None, projectName = None, assets = empty_object\<rparr>]
   \<and> (\<exists>lib e. scanSequences_app (folder [fileNamed ''Seq02_Script.txt'', fileNamed ''Seq01_View.jpg''])
                 = Inr lib \<and> lib ''01'' = Some e)"
proof -
  have k: "kind (fileNamed ''Seq01_View.jpg'') = File"
    by (simp add: fileNamed_def)
  have m: "scan_seqId (name (fileNamed ''Seq01_View.jpg'')) = Some ''01''"
    by (simp add: fileNamed_def scan_seqId_def scan_pattern_def char_defs)
  have e: "\<not> endsWith (toLowerCase (name (fileNamed ''Seq01_View.jpg''))) ''.txt''"
    by (simp add: fileNamed_def endsWith_def char_defs)
  show ?thesis
    using unclassified_file_creates_entry [OF k m e,
        of "[fileNamed ''Seq02_Script.txt'', fileNamed ''Seq01_View.jpg'']" "folder []"]
    by (simp add: folder_def)
qed

section \<open>The drop handler\<close>

lemma drop_nothing_is_noop: "handleFileDrop readText [] st = (st, None)"
  by (simp add: handleFileDrop_def)

text \<open>
  Claim C6. When the drop handler's pattern finds no sequence ID in the name of the dropped
  file, the handler returns the state it was given (so neither the prompt nor the script
  field changes) and throws nothing.
\<close>

theorem drop_without_sequence_id_is_noop:
  "drop_seqId fileName = None \<Longrightarrow> handleFileDrop readText (fileName # others) st = (st, None)"
  by (simp add: handleFileDrop_def)

theorem drop_without_sequence_id_is_noop_witness:
  "drop_seqId ''notes.txt'' = None
   \<and> handleFileDrop (\<lambda>h. Inl ReadError) [''notes.txt''] app0 = (app0, None)"
  using drop_without_sequence_id_is_noop [of "''notes.txt''" "\<lambda>h. Inl ReadError" "[]" app0]
  by (simp add: drop_seqId_def drop_pattern_def char_defs)

text \<open>
  Claim C7. When the sequence ID of the dropped file is in the Library and its entry has
  no \<open>prompt\<close> asset, the prompt field keeps its value; a \<open>script\<close> asset of that entry
  is still read, and the text read becomes the script field, nothing else changes and
  nothing is thrown. With neither asset the handler changes nothing and throws nothing.
\<close>

theorem drop_missing_prompt_keeps_prompt:
  assumes "drop_seqId fileName = Some seqId"
    and "projectLibrary st seqId = Some sequenceData"
    and "props (assets sequenceData) ''prompt'' = None"
  shows "prompt (fst (handleFileDrop readText (fileName # others) st)) = prompt st
    \<and> (\<forall>h text. props (assets sequenceData) ''script'' = Some h \<and> readText h = Inr text
          \<longrightarrow> handleFileDrop readText (fileName # others) st = (st\<lparr>script := text\<rparr>, None))
    \<and> (props (assets sequenceData) ''script'' = None
          \<longrightarrow> handleFileDrop readText (fileName # others) st = (st, None))"
  using assms by (auto simp: handleFileDrop_def autofill_def split: option.splits sum.splits)

theorem drop_missing_prompt_keeps_prompt_witness:
  "drop_seqId ''Seq01_View.jpg'' = Some ''01''
   \<and> projectLibrary app1 ''01'' = Some script_only
   \<and> props (assets script_only) ''prompt'' = None
   \<and> props (assets script_only) ''script'' = Some (fileNamed ''Seq01_Script.txt'')
   \<and> handleFileDrop (\<lambda>h. Inr ''INT. TRAIN - DAY'') [''Seq01_View.jpg''] app1
       = (app1\<lparr>script := ''INT. TRAIN - DAY''\<rparr>, None)
   \<and> prompt (app1\<lparr>script := ''INT. TRAIN - DAY''\<rparr>) = ''old prompt''"
proof -
  have m: "drop_seqId ''Seq01_View.jpg'' = Some ''01''"
    by (simp add: drop_seqId_def drop_pattern_def char_defs)
  have l: "projectLibrary app1 ''01'' = Some script_only"
    by (simp add: app1_def)
  have p: "props (assets script_only) ''prompt'' = None"
    by (simp add: script_only_def)
  have s: "props (assets script_only) ''script'' = Some (fileNamed ''Seq01_Script.txt'')"
    by (simp add: script_only_def)
  show ?thesis
    using m l p s
      drop_missing_prompt_keeps_prompt [OF m l p, of "\<lambda>h. Inr ''INT. TRAIN - DAY''" "[]"]
    by (simp add: app1_def app0_def)
qed

section \<open>Start-up recovery and connecting a folder\<close>

lemma init_uses_stored_handle:
  "getStoredDirectory_app (store st) = Some handle \<Longrightarrow> currentFolder (init st) = Some handle"
  by (simp add: init_def Let_def split: sum.splits)

lemma getStoredDirectory_granted:
  "getStoredDirectory db = Inr (Some handle) \<Longrightarrow> requestPermission handle = Inr Granted"
  by (auto simp: getStoredDirectory_def split: option.splits sum.splits if_splits)

text \<open>
  Claim C4, evaluated on a stored handle whose permission is revoked. The storage module
  re-checks the permission and gives no handle. The application's start-up recovery
  calls its inlined storage logic instead, which does not: the stored handle becomes the
  connected folder and is scanned.
\<close>

theorem init_skips_permission_check:
  "getStoredDirectory [''project-root'' \<mapsto> revoked_folder] = Inr None
   \<and> getStoredDirectory_app [STORAGE_KEY \<mapsto> revoked_folder] = Some revoked_folder
   \<and> init (app0\<lparr>store := [STORAGE_KEY \<mapsto> revoked_folder]\<rparr>)
       = app0\<lparr>store := [STORAGE_KEY \<mapsto> revoked_folder], currentFolder := Some revoked_folder\<rparr>"
  by (simp add: getStoredDirectory_def getStoredDirectory_app_def init_def revoked_folder_def
      scanSequences_app_def app0_def)

text \<open>
  Claim C5. When the scan of a folder throws, the Library held before is kept as it was,
  whether the scan was started by connecting the folder or by start-up recovery.
\<close>

theorem failed_scan_keeps_library:
  assumes "scanSequences_app handle = Inl e"
  shows "projectLibrary (handleConnectFolder (Inr handle) st) = projectLibrary st
    \<and> (getStoredDirectory_app (store st) = Some handle
          \<longrightarrow> projectLibrary (init st) = projectLibrary st)"
  using assms by (simp add: handleConnectFolder_def init_def Let_def)

theorem failed_scan_keeps_library_witness:
  "scanSequences_app broken_folder = Inl EnumerationError
   \<and> projectLibrary (handleConnectFolder (Inr broken_folder) app1) = [''01'' \<mapsto> script_only]
   \<and> projectLibrary (init (app1\<lparr>store := [STORAGE_KEY \<mapsto> broken_folder]\<rparr>)) = [''01'' \<mapsto> script_only]"
proof -
  have f: "scanSequences_app broken_folder = Inl EnumerationError"
    by (simp add: scanSequences_app_def broken_folder_def)
  show ?thesis
    using f failed_scan_keeps_library [OF f, of app1]
      failed_scan_keeps_library [OF f, of "app1\<lparr>store := [STORAGE_KEY \<mapsto> broken_folder]\<rparr>"]
    by (simp add: getStoredDirectory_app_def app1_def)
qed

section \<open>The strict convention\<close>

lemma Eos_notin_SEQ_PATTERN: "Eos \<notin> set SEQ_PATTERN"
  by (simp add: SEQ_PATTERN_def)

lemma js_match_SEQ_PATTERN_shape:
  assumes "js_match SEQ_PATTERN n = Some gs"
  shows "\<exists>pre mid post pn sid t ext.
           n = pre @ mid @ post \<and> gs = [pn, sid, t, ext] \<and> strict_shape mid pn sid t ext"
proof -
  from js_match_sound [OF assms] obtain pre t0 where n: "n = pre @ t0"
    and e: "exec (SEQ_PATTERN @ []) t0 = Some gs" by auto
  from exec_sound [OF Eos_notin_SEQ_PATTERN e] obtain u v g1 where
    t0: "t0 = u @ v" and "derives SEQ_PATTERN u g1" "gs = g1" by auto
  then obtain pn sid t ext where "gs = [pn, sid, t, ext]" "strict_shape u pn sid t ext"
    by (auto simp: derives_SEQ_PATTERN)
  with n t0 have "n = pre @ u @ v \<and> gs = [pn, sid, t, ext] \<and> strict_shape u pn sid t ext"
    by simp
  then show ?thesis by blast
qed

lemma js_match_SEQ_PATTERN_iff:
  "js_match SEQ_PATTERN n \<noteq> None \<longleftrightarrow>
     (\<exists>pre mid post pn sid t ext. n = pre @ mid @ post \<and> strict_shape mid pn sid t ext)"
proof
  assume "js_match SEQ_PATTERN n \<noteq> None"
  then obtain gs where "js_match SEQ_PATTERN n = Some gs" by auto
  from js_match_SEQ_PATTERN_shape [OF this]
  show "\<exists>pre mid post pn sid t ext. n = pre @ mid @ post \<and> strict_shape mid pn sid t ext"
    by blast
next
  assume "\<exists>pre mid post pn sid t ext. n = pre @ mid @ post \<and> strict_shape mid pn sid t ext"
  then obtain pre mid post pn sid t ext where n: "n = pre @ mid @ post"
    and "strict_shape mid pn sid t ext" by blast
  then have "derives SEQ_PATTERN mid [pn, sid, t, ext]" by (simp add: derives_SEQ_PATTERN)
  then have "exec (SEQ_PATTERN @ []) (mid @ post) \<noteq> None" by (rule exec_complete) simp
  then have "js_match SEQ_PATTERN (pre @ mid @ post) \<noteq> None"
    using js_match_complete [of SEQ_PATTERN "mid @ post" pre] by simp
  with n show "js_match SEQ_PATTERN n \<noteq> None" by simp
qed

lemma matches_exactly_SEQ_PATTERN:
  "matches_exactly SEQ_PATTERN w \<longleftrightarrow> (\<exists>pn sid t ext. strict_shape w pn sid t ext)"
proof
  assume "matches_exactly SEQ_PATTERN w"
  then obtain gs where "exec (SEQ_PATTERN @ [Eos]) w = Some gs"
    by (auto simp: matches_exactly_def)
  from exec_sound [OF Eos_notin_SEQ_PATTERN this] obtain u v g1 g2 where
    "w = u @ v" "derives SEQ_PATTERN u g1" "exec [Eos] v = Some g2" by blast
  then have "derives SEQ_PATTERN w g1" by (auto split: if_splits)
  then show "\<exists>pn sid t ext. strict_shape w pn sid t ext" by (auto simp: derives_SEQ_PATTERN)
next
  assume "\<exists>pn sid t ext. strict_shape w pn sid t ext"
  then obtain pn sid t ext where "derives SEQ_PATTERN w [pn, sid, t, ext]"
    by (auto simp: derives_SEQ_PATTERN)
  then have "exec (SEQ_PATTERN @ [Eos]) (w @ []) \<noteq> None" by (rule exec_complete) simp
  then show "matches_exactly SEQ_PATTERN w" by (simp add: matches_exactly_def)
qed

lemma strict_captures_Some:
  "strict_captures n = Some (pn, sid, t) \<longleftrightarrow> (\<exists>ext. js_match SEQ_PATTERN n = Some [pn, sid, t, ext])"
  by (auto simp: strict_captures_def split: option.splits list.splits)

lemma strict_captures_None: "strict_captures n = None \<longleftrightarrow> js_match SEQ_PATTERN n = None"
proof
  assume "strict_captures n = None"
  show "js_match SEQ_PATTERN n = None"
  proof (rule ccontr)
    assume "js_match SEQ_PATTERN n \<noteq> None"
    then obtain gs where g: "js_match SEQ_PATTERN n = Some gs" by auto
    from js_match_SEQ_PATTERN_shape [OF g] obtain pn sid t ext where "gs = [pn, sid, t, ext]"
      by blast
    with g have "strict_captures n = Some (pn, sid, t)" by (simp add: strict_captures_def)
    with \<open>strict_captures n = None\<close> show False by simp
  qed
next
  assume "js_match SEQ_PATTERN n = None"
  then show "strict_captures n = None" by (simp add: strict_captures_def)
qed

lemma assign_empty_object:
  "assign empty_object k h =
     Inr (if k = ''__proto__'' then empty_object\<lparr>proto := Some h\<rparr> else set_prop empty_object k h)"
  by (simp add: assign_def set_prop_def read_only_in_handle_def empty_object_def)

lemma scan_single_file:
  assumes "kind h = File" and "strict_captures (name h) = Some (pn, sid, t)"
  shows "scanSequences (d\<lparr>contents := listing_of [h]\<rparr>)
    = Inr [sid \<mapsto> \<lparr>id_field = Some sid, projectName = Some pn,
                    assets = (if toLowerCase t = ''__proto__'' then empty_object\<lparr>proto := Some h\<rparr>
                              else set_prop empty_object (toLowerCase t) h)\<rparr>]"
  using assms by (simp add: scanSequences_def scan_entry_def assign_empty_object)

text \<open>
  Claim C2, as the code has it. The strict scanner searches the pattern anywhere in the
  name, so a file produces a Library entry if and only if some part of its name has the
  form \<open>Project_<name>_Seq<digits>_<kind>.<ext>\<close> (letters of the fixed parts in either
  case, the extension one of txt, png, wav, mp4, no line break in \<open><name>\<close>). What the
  scanner captures is the \<open><name>\<close>, \<open><digits>\<close> and \<open><kind>\<close> of such a part, and the scan
  of a directory holding that file alone gives exactly one entry, under the captured
  digits, with the file as the only asset, under the lowercased kind. The kind
  \<open>__proto__\<close> is left out here: see the evaluation for claim C1.
\<close>

theorem strict_scanner_recognises:
  assumes "kind h = File"
  shows "(scanSequences (d\<lparr>contents := listing_of [h]\<rparr>) \<noteq> Inr Map.empty
            \<longleftrightarrow> (\<exists>pre mid post pn sid t ext.
                   name h = pre @ mid @ post \<and> strict_shape mid pn sid t ext))
    \<and> (\<forall>pn sid t. strict_captures (name h) = Some (pn, sid, t) \<longrightarrow>
          (\<exists>pre mid post ext. name h = pre @ mid @ post \<and> strict_shape mid pn sid t ext)
          \<and> (toLowerCase t \<noteq> ''__proto__'' \<longrightarrow>
               scanSequences (d\<lparr>contents := listing_of [h]\<rparr>)
                 = Inr [sid \<mapsto> \<lparr>id_field = Some sid, projectName = Some pn,
                                 assets = \<lparr>props = [toLowerCase t \<mapsto> h], proto = None\<rparr>\<rparr>]))
    \<and> (matches_exactly SEQ_PATTERN (name h) \<longrightarrow> strict_captures (name h) \<noteq> None)"
proof (intro conjI allI impI)
  show "scanSequences (d\<lparr>contents := listing_of [h]\<rparr>) \<noteq> Inr Map.empty
      \<longleftrightarrow> (\<exists>pre mid post pn sid t ext. name h = pre @ mid @ post \<and> strict_shape mid pn sid t ext)"
  proof (cases "strict_captures (name h)")
    case None
    then have "js_match SEQ_PATTERN (name h) = None" by (simp add: strict_captures_None)
    moreover from this have "scanSequences (d\<lparr>contents := listing_of [h]\<rparr>) = Inr Map.empty"
      by (simp add: scanSequences_def scan_entry_unmatched)
    ultimately show ?thesis using js_match_SEQ_PATTERN_iff [of "name h"] by simp
  next
    case (Some c)
    then obtain pn sid t where c: "strict_captures (name h) = Some (pn, sid, t)"
      by (cases c) auto
    then have "js_match SEQ_PATTERN (name h) \<noteq> None" by (auto simp: strict_captures_Some)
    moreover have "scanSequences (d\<lparr>contents := listing_of [h]\<rparr>) \<noteq> Inr Map.empty"
      unfolding scan_single_file [OF assms c] by (simp add: fun_eq_iff)
    ultimately show ?thesis using js_match_SEQ_PATTERN_iff [of "name h"] by simp
  qed
next
  fix pn sid t
  assume c: "strict_captures (name h) = Some (pn, sid, t)"
  then obtain ext where "js_match SEQ_PATTERN (name h) = Some [pn, sid, t, ext]"
    by (auto simp: strict_captures_Some)
  from js_match_SEQ_PATTERN_shape [OF this]
  show "\<exists>pre mid post ext. name h = pre @ mid @ post \<and> strict_shape mid pn sid t ext"
    by auto
  assume "toLowerCase t \<noteq> ''__proto__''"
  then show "scanSequences (d\<lparr>contents := listing_of [h]\<rparr>)
                 = Inr [sid \<mapsto> \<lparr>id_field = Some sid, projectName = Some pn,
                                 assets = \<lparr>props = [toLowerCase t \<mapsto> h], proto = None\<rparr>\<rparr>]"
    unfolding scan_single_file [OF assms c] by (simp add: set_prop_def empty_object_def)
next
  assume "matches_exactly SEQ_PATTERN (name h)"
  then obtain pn sid t ext where "strict_shape (name h) pn sid t ext"
    unfolding matches_exactly_SEQ_PATTERN by blast
  then have "name h = [] @ name h @ [] \<and> strict_shape (name h) pn sid t ext" by simp
  then have "js_match SEQ_PATTERN (name h) \<noteq> None"
    unfolding js_match_SEQ_PATTERN_iff by blast
  then show "strict_captures (name h) \<noteq> None" by (simp add: strict_captures_None)
qed

theorem strict_scanner_recognises_witness:
  "kind (fileNamed ''Project_X_Seq01_Script.txt'') = File
   \<and> strict_captures ''Project_X_Seq01_Script.txt'' = Some (''X'', ''01'', ''Script'')
   \<and> toLowerCase ''Script'' \<noteq> ''__proto__''
   \<and> scanSequences (folder [fileNamed ''Project_X_Seq01_Script.txt''])
       = Inr [''01'' \<mapsto> \<lparr>id_field = Some ''01'', projectName = Some ''X'',
               assets = \<lparr>props = [''script'' \<mapsto> fileNamed ''Project_X_Seq01_Script.txt''], proto = None\<rparr>\<rparr>]
   \<and> (\<exists>pre mid post ext. ''Project_X_Seq01_Script.txt'' = pre @ mid @ post
          \<and> strict_shape mid ''X'' ''01'' ''Script'' ext)
   \<and> matches_exactly SEQ_PATTERN ''Project_X_Seq01_Script.txt''"
proof -
  have x: "matches_exactly SEQ_PATTERN ''Project_X_Seq01_Script.txt''"
    by (simp add: matches_exactly_def SEQ_PATTERN_def char_defs)
  have k: "kind (fileNamed ''Project_X_Seq01_Script.txt'') = File"
    by (simp add: fileNamed_def)
  have c: "strict_captures (name (fileNamed ''Project_X_Seq01_Script.txt'')) = Some (''X'', ''01'', ''Script'')"
    by (simp add: fileNamed_def strict_captures_def SEQ_PATTERN_def char_defs)
  have l: "toLowerCase ''Script'' = ''script''"
    by (simp add: char_defs)
  show ?thesis
    using k c l x strict_scanner_recognises [OF k, of "folder []"]
    by (simp add: folder_def fileNamed_def)
qed

text \<open>
  A name that is not of the strict form as a whole, yet is indexed: the backup copy of a
  script, taken for the script of sequence 01.
\<close>

theorem strict_unanchored_counterexample:
  "scanSequences (folder [fileNamed ''Project_A_Seq01_Script.txt.bak''])
     = Inr [''01'' \<mapsto> \<lparr>id_field = Some ''01'', projectName = Some ''A'',
              assets = \<lparr>props = [''script'' \<mapsto> fileNamed ''Project_A_Seq01_Script.txt.bak''], proto = None\<rparr>\<rparr>]
   \<and> \<not> matches_exactly SEQ_PATTERN ''Project_A_Seq01_Script.txt.bak''"
  by (simp add: scanSequences_def folder_def fileNamed_def scan_entry_def strict_captures_def
      matches_exactly_def SEQ_PATTERN_def assign_def set_prop_def read_only_in_handle_def empty_object_def char_defs)

section \<open>The three recognisers\<close>

lemma toLowerCase_Seq': "toLowerCase ''Seq'' = ''seq''"
  by (simp add: char_defs)

lemma derives_Seq_digits:
  "derives [Lit ''Seq'', Cap_Plus Digit] w gs \<longleftrightarrow>
     (\<exists>u g. w = u @ g \<and> toLowerCase u = ''seq'' \<and> g \<noteq> [] \<and> list_all is_digit g \<and> gs = [g])"
  unfolding derives.simps toLowerCase_Seq' cls_ok_Digit by auto

lemma js_match_Seq_digits_shape:
  assumes "js_match [Lit ''Seq'', Cap_Plus Digit] n = Some gs"
  shows "\<exists>pre u g post. n = pre @ u @ g @ post \<and> toLowerCase u = ''seq'' \<and> g \<noteq> []
           \<and> list_all is_digit g \<and> gs = [g]"
proof -
  from js_match_sound [OF assms] obtain pre t0 where n: "n = pre @ t0"
    and e: "exec ([Lit ''Seq'', Cap_Plus Digit] @ []) t0 = Some gs" by auto
  have "Eos \<notin> set [Lit ''Seq'', Cap_Plus Digit]" by simp
  from exec_sound [OF this e] obtain w v g1 g2 where
    t0: "t0 = w @ v" and "derives [Lit ''Seq'', Cap_Plus Digit] w g1" "exec [] v = Some g2"
      "gs = g1 @ g2" by blast
  then have "derives [Lit ''Seq'', Cap_Plus Digit] w gs" by simp
  then obtain u g where "w = u @ g" "toLowerCase u = ''seq''" "g \<noteq> []" "list_all is_digit g" "gs = [g]"
    unfolding derives_Seq_digits by blast
  with n t0 have "n = pre @ u @ g @ v \<and> toLowerCase u = ''seq'' \<and> g \<noteq> []
           \<and> list_all is_digit g \<and> gs = [g]" by simp
  then show ?thesis by blast
qed

lemma js_match_Seq_digits_complete:
  assumes "toLowerCase u = ''seq''" "g \<noteq> []" "list_all is_digit g"
  shows "js_match [Lit ''Seq'', Cap_Plus Digit] (pre @ u @ g @ post) \<noteq> None"
proof -
  from assms have "derives [Lit ''Seq'', Cap_Plus Digit] (u @ g) [g]"
    unfolding derives_Seq_digits by blast
  then have "exec ([Lit ''Seq'', Cap_Plus Digit] @ []) ((u @ g) @ post) \<noteq> None"
    by (rule exec_complete) simp
  then show ?thesis
    using js_match_complete [of "[Lit ''Seq'', Cap_Plus Digit]" "u @ g @ post" pre] by simp
qed

lemma drop_seqId_None:
  "drop_seqId n = None \<longleftrightarrow> js_match drop_pattern n = None"
proof (cases "js_match drop_pattern n")
  case None
  then show ?thesis by (simp add: drop_seqId_def)
next
  case (Some gs)
  from js_match_Seq_digits_shape [OF Some [unfolded drop_pattern_def]]
  obtain g where "gs = [g]" "g \<noteq> []" by blast
  with Some show ?thesis by (simp add: drop_seqId_def)
qed

lemma scan_seqId_None:
  "scan_seqId n = None \<longleftrightarrow> js_match scan_pattern n = None"
proof (cases "js_match scan_pattern n")
  case None
  then show ?thesis by (simp add: scan_seqId_def)
next
  case (Some gs)
  from js_match_Seq_digits_shape [OF Some [unfolded scan_pattern_def]]
  obtain g where "gs = [g]" "g \<noteq> []" by blast
  with Some show ?thesis by (simp add: scan_seqId_def)
qed

lemma strict_shape_has_Seq_digits:
  assumes "strict_shape mid pn sid t ext"
  shows "\<exists>pre u post. mid = pre @ u @ sid @ post \<and> toLowerCase u = ''seq'' \<and> sid \<noteq> []
           \<and> list_all is_digit sid"
proof -
  from assms obtain a b where mid: "mid = a @ pn @ b @ sid @ ''_'' @ t @ ''.'' @ ext"
    and b: "toLowerCase b = ''_seq''" and sid: "sid \<noteq> []" "list_all is_digit sid"
    by (auto simp: strict_shape_def)
  from b obtain c u where bu: "b = c # u" and u: "toLowerCase u = ''seq''"
    by (cases b) (auto simp: toLowerCase_def)
  from mid bu have "mid = (a @ pn @ [c]) @ u @ sid @ (''_'' @ t @ ''.'' @ ext)" by simp
  with u sid show ?thesis by blast
qed

text \<open>
  Claim C3, as the code has it. The drop handler and the application's own scanner use
  the same pattern: on every name they extract the same sequence ID, or both none. The
  strict scanner of the scanner module is a different recogniser: every name from which it
  extracts an ID is also recognised by the drop handler, but not the other way round, and
  the two IDs may differ.
\<close>

theorem drop_recogniser_compared:
  "scan_seqId n = drop_seqId n \<and> (strict_captures n \<noteq> None \<longrightarrow> drop_seqId n \<noteq> None)"
proof
  show "scan_seqId n = drop_seqId n"
    by (simp add: scan_seqId_def drop_seqId_def scan_pattern_def drop_pattern_def)
  show "strict_captures n \<noteq> None \<longrightarrow> drop_seqId n \<noteq> None"
  proof
    assume "strict_captures n \<noteq> None"
    then have "js_match SEQ_PATTERN n \<noteq> None" by (simp add: strict_captures_None)
    then obtain pre mid post pn sid t ext where n: "n = pre @ mid @ post"
      and "strict_shape mid pn sid t ext"
      unfolding js_match_SEQ_PATTERN_iff by blast
    from strict_shape_has_Seq_digits [OF this(2)] obtain pre' u post' where
      mid: "mid = pre' @ u @ sid @ post'" and u: "toLowerCase u = ''seq''" "sid \<noteq> []" "list_all is_digit sid"
      by blast
    from n mid have "n = (pre @ pre') @ u @ sid @ (post' @ post)" by simp
    then have "js_match drop_pattern n \<noteq> None"
      using js_match_Seq_digits_complete [OF u, of "pre @ pre'" "post' @ post"]
      by (simp add: drop_pattern_def)
    then show "drop_seqId n \<noteq> None" by (simp add: drop_seqId_None)
  qed
qed

theorem drop_recogniser_compared_witness:
  "strict_captures ''Project_X_Seq01_Script.txt'' \<noteq> None
   \<and> drop_seqId ''Project_X_Seq01_Script.txt'' \<noteq> None
   \<and> scan_seqId ''Project_X_Seq01_Script.txt'' = drop_seqId ''Project_X_Seq01_Script.txt''"
proof -
  have "strict_captures ''Project_X_Seq01_Script.txt'' \<noteq> None"
    by (simp add: strict_captures_def SEQ_PATTERN_def char_defs)
  then show ?thesis
    using drop_recogniser_compared [of "''Project_X_Seq01_Script.txt''"] by simp
qed

text \<open>
  A name the drop handler recognises and the strict scanner does not; and a name both
  recognise, with different sequence IDs.
\<close>

theorem recognisers_disagree_counterexample:
  "drop_seqId ''Seq01_View.jpg'' = Some ''01'' \<and> strict_captures ''Seq01_View.jpg'' = None"
  by (simp add: drop_seqId_def drop_pattern_def strict_captures_def SEQ_PATTERN_def char_defs)

lemma recognisers_differ_on_id:
  "strict_captures ''Project_Seq5_Seq01_Script.txt'' = Some (''Seq5'', ''01'', ''Script'')
   \<and> drop_seqId ''Project_Seq5_Seq01_Script.txt'' = Some ''5''"
  by (simp add: drop_seqId_def drop_pattern_def strict_captures_def SEQ_PATTERN_def char_defs)

section \<open>Names without a match\<close>

lemma js_match_scan_pattern_iff:
  "js_match scan_pattern n \<noteq> None \<longleftrightarrow>
     (\<exists>pre u g post. n = pre @ u @ g @ post \<and> toLowerCase u = ''seq'' \<and> g \<noteq> []
        \<and> list_all is_digit g)"
proof
  assume "js_match scan_pattern n \<noteq> None"
  then obtain gs where "js_match [Lit ''Seq'', Cap_Plus Digit] n = Some gs"
    by (auto simp: scan_pattern_def)
  from js_match_Seq_digits_shape [OF this]
  show "\<exists>pre u g post. n = pre @ u @ g @ post \<and> toLowerCase u = ''seq'' \<and> g \<noteq> []
        \<and> list_all is_digit g"
    by blast
next
  assume "\<exists>pre u g post. n = pre @ u @ g @ post \<and> toLowerCase u = ''seq'' \<and> g \<noteq> []
        \<and> list_all is_digit g"
  then obtain pre u g post where n: "n = pre @ u @ g @ post"
    and u: "toLowerCase u = ''seq''" "g \<noteq> []" "list_all is_digit g" by blast
  from js_match_Seq_digits_complete [OF u, of pre post] n
  show "js_match scan_pattern n \<noteq> None" by (simp add: scan_pattern_def)
qed

text \<open>
  Claim C8, as the code has it. Each scanner searches its pattern anywhere in the name.
  A name no part of which has the form \<open>Project_<name>_Seq<digits>_<kind>.<ext>\<close> is
  skipped by the strict scanner, and a name that holds no \<open>Seq<digits>\<close> is skipped by the
  application's scanner: handling the entry raises nothing and leaves the Library as it
  was, the scan of a directory has the same outcome with or without the entry, and a
  directory holding only that entry scans to the empty Library. A name that merely is
  not of the strict form as a whole can still be indexed: see the example that follows.
\<close>

theorem names_without_match_are_skipped:
  "((\<not> (\<exists>pre mid post pn sid t ext.
           name entry = pre @ mid @ post \<and> strict_shape mid pn sid t ext)) \<longrightarrow>
      scan_entry lib entry = Inr lib
      \<and> scanSequences (d\<lparr>contents := listing_of (xs @ entry # ys)\<rparr>)
          = scanSequences (d\<lparr>contents := listing_of (xs @ ys)\<rparr>)
      \<and> scanSequences (d\<lparr>contents := listing_of [entry]\<rparr>) = Inr Map.empty)
   \<and> ((\<not> (\<exists>pre u g post. name entry = pre @ u @ g @ post \<and> toLowerCase u = ''seq''
              \<and> g \<noteq> [] \<and> list_all is_digit g)) \<longrightarrow>
      scan_entry_app lib entry = lib
      \<and> scanSequences_app (d\<lparr>contents := listing_of (xs @ entry # ys)\<rparr>)
          = scanSequences_app (d\<lparr>contents := listing_of (xs @ ys)\<rparr>)
      \<and> scanSequences_app (d\<lparr>contents := listing_of [entry]\<rparr>) = Inr Map.empty)"
proof (rule conjI; rule impI)
  assume "\<not> (\<exists>pre mid post pn sid t ext.
           name entry = pre @ mid @ post \<and> strict_shape mid pn sid t ext)"
  then have m: "js_match SEQ_PATTERN (name entry) = None"
    using js_match_SEQ_PATTERN_iff [of "name entry"] by blast
  then have skip: "scan_entry l entry = Inr l" for l
    by (rule scan_entry_unmatched)
  then show "scan_entry lib entry = Inr lib
      \<and> scanSequences (d\<lparr>contents := listing_of (xs @ entry # ys)\<rparr>)
          = scanSequences (d\<lparr>contents := listing_of (xs @ ys)\<rparr>)
      \<and> scanSequences (d\<lparr>contents := listing_of [entry]\<rparr>) = Inr Map.empty"
    by (simp add: scanSequences_def scan_loop_listing_of scan_all_skip)
next
  assume "\<not> (\<exists>pre u g post. name entry = pre @ u @ g @ post \<and> toLowerCase u = ''seq''
              \<and> g \<noteq> [] \<and> list_all is_digit g)"
  then have m: "js_match scan_pattern (name entry) = None"
    using js_match_scan_pattern_iff [of "name entry"] by blast
  then show "scan_entry_app lib entry = lib
      \<and> scanSequences_app (d\<lparr>contents := listing_of (xs @ entry # ys)\<rparr>)
          = scanSequences_app (d\<lparr>contents := listing_of (xs @ ys)\<rparr>)
      \<and> scanSequences_app (d\<lparr>contents := listing_of [entry]\<rparr>) = Inr Map.empty"
    by (simp add: scanSequences_app_def scan_loop_app_listing_of scan_entry_app_unmatched)
qed

theorem names_without_match_are_skipped_witness:
  "\<not> (\<exists>pre mid post pn sid t ext. ''notes.md'' = pre @ mid @ post \<and> strict_shape mid pn sid t ext)
   \<and> \<not> (\<exists>pre u g post. ''notes.md'' = pre @ u @ g @ post \<and> toLowerCase u = ''seq''
            \<and> g \<noteq> [] \<and> list_all is_digit g)
   \<and> scanSequences (folder [fileNamed ''Project_X_Seq01_Script.txt'', fileNamed ''notes.md''])
       = scanSequences (folder [fileNamed ''Project_X_Seq01_Script.txt''])
   \<and> scanSequences_app (folder [fileNamed ''Seq01_Script.txt'', fileNamed ''notes.md''])
       = scanSequences_app (folder [fileNamed ''Seq01_Script.txt''])
   \<and> scanSequences (folder [fileNamed ''notes.md'']) = Inr Map.empty
   \<and> scanSequences_app (folder [fileNamed ''notes.md'']) = Inr Map.empty"
proof -
  have n: "name (fileNamed ''notes.md'') = ''notes.md''"
    by (simp add: fileNamed_def)
  have "js_match SEQ_PATTERN ''notes.md'' = None"
    by (simp add: SEQ_PATTERN_def char_defs)
  then have a: "\<not> (\<exists>pre mid post pn sid t ext.
      name (fileNamed ''notes.md'') = pre @ mid @ post \<and> strict_shape mid pn sid t ext)"
    unfolding n js_match_SEQ_PATTERN_iff [symmetric] by simp
  have "js_match scan_pattern ''notes.md'' = None"
    by (simp add: scan_pattern_def char_defs)
  then have b: "\<not> (\<exists>pre u g post. name (fileNamed ''notes.md'') = pre @ u @ g @ post
      \<and> toLowerCase u = ''seq'' \<and> g \<noteq> [] \<and> list_all is_digit g)"
    unfolding n js_match_scan_pattern_iff [symmetric] by simp
  from a b
    names_without_match_are_skipped [where entry = "fileNamed ''notes.md''" and d = "folder []"
      and xs = "[fileNamed ''Project_X_Seq01_Script.txt'']" and ys = "[]"]
    names_without_match_are_skipped [where entry = "fileNamed ''notes.md''" and d = "folder []"
      and xs = "[fileNamed ''Seq01_Script.txt'']" and ys = "[]"]
  have "scanSequences (folder [fileNamed ''Project_X_Seq01_Script.txt'', fileNamed ''notes.md''])
       = scanSequences (folder [fileNamed ''Project_X_Seq01_Script.txt''])
   \<and> scanSequences_app (folder [fileNamed ''Seq01_Script.txt'', fileNamed ''notes.md''])
       = scanSequences_app (folder [fileNamed ''Seq01_Script.txt''])
   \<and> scanSequences (folder [fileNamed ''notes.md'']) = Inr Map.empty
   \<and> scanSequences_app (folder [fileNamed ''notes.md'']) = Inr Map.empty"
    by (simp add: folder_def)
  with a b show ?thesis unfolding n by blast
qed

text \<open>
  A name that does not match the strict convention (it is not of the strict form from its
  first to its last character) and is indexed all the same: an archived keyframe, taken
  for the keyframe of sequence 02.
\<close>

theorem inexact_name_is_indexed_counterexample:
  "\<not> matches_exactly SEQ_PATTERN ''old_Project_B_Seq02_Keyframe.png''
   \<and> scanSequences (folder [fileNamed ''old_Project_B_Seq02_Keyframe.png''])
       = Inr [''02'' \<mapsto> \<lparr>id_field = Some ''02'', projectName = Some ''B'',
                assets = \<lparr>props = [''keyframe'' \<mapsto> fileNamed ''old_Project_B_Seq02_Keyframe.png''],
                          proto = None\<rparr>\<rparr>]"
  by (simp add: scanSequences_def folder_def fileNamed_def scan_entry_def strict_captures_def
      matches_exactly_def SEQ_PATTERN_def assign_def set_prop_def read_only_in_handle_def
      empty_object_def char_defs)

section \<open>The fields of a scanned entry\<close>

lemma scan_entry_Inr:
  assumes "scan_entry lib h = Inr lib'"
  shows "lib' = lib
       \<or> (\<exists>pn sid t a. kind h = File \<and> strict_captures (name h) = Some (pn, sid, t)
             \<and> lib' = lib(sid \<mapsto>
                   (case lib sid of
                      None \<Rightarrow> \<lparr>id_field = Some sid, projectName = Some pn, assets = empty_object\<rparr>
                    | Some e \<Rightarrow> e)\<lparr>assets := a\<rparr>))"
proof (cases "kind h = File")
  case False
  with assms show ?thesis by (simp add: scan_entry_def)
next
  case True
  show ?thesis
  proof (cases "strict_captures (name h)")
    case None
    with assms True show ?thesis by (simp add: scan_entry_def)
  next
    case (Some c)
    obtain pn sid t where c: "c = (pn, sid, t)" by (cases c)
    with assms True Some show ?thesis
      by (auto simp: scan_entry_def Let_def split: sum.splits)
  qed
qed

lemma scan_entry_fields:
  assumes "scan_entry lib h = Inr lib'" and "lib' k = Some e"
  shows "(\<exists>e'. lib k = Some e' \<and> id_field e = id_field e' \<and> projectName e = projectName e')
       \<or> (lib k = None \<and> kind h = File \<and> id_field e = Some k
            \<and> (\<exists>pn t. strict_captures (name h) = Some (pn, k, t) \<and> projectName e = Some pn))"
proof -
  from scan_entry_Inr [OF assms(1)] consider "lib' = lib"
    | pn sid t a where "kind h = File" "strict_captures (name h) = Some (pn, sid, t)"
        "lib' = lib(sid \<mapsto>
           (case lib sid of
              None \<Rightarrow> \<lparr>id_field = Some sid, projectName = Some pn, assets = empty_object\<rparr>
            | Some e \<Rightarrow> e)\<lparr>assets := a\<rparr>)"
    by blast
  then show ?thesis
  proof cases
    case 1
    with assms(2) show ?thesis by simp
  next
    case 2
    show ?thesis
    proof (cases "k = sid")
      case False
      with 2(3) assms(2) show ?thesis by simp
    next
      case True
      with 2 assms(2) show ?thesis by (cases "lib sid") auto
    qed
  qed
qed

lemma strict_entry_fields:
  "scan_all Map.empty hs = Inr lib \<Longrightarrow> lib k = Some e \<Longrightarrow>
     id_field e = Some k
     \<and> (\<exists>h\<in>set hs. kind h = File
           \<and> (\<exists>pn t. strict_captures (name h) = Some (pn, k, t) \<and> projectName e = Some pn))"
proof (induction hs arbitrary: lib e rule: rev_induct)
  case Nil
  then show ?case by auto
next
  case (snoc h hs)
  from snoc.prems(1) obtain lib0 where l0: "scan_all Map.empty hs = Inr lib0"
    and st: "scan_entry lib0 h = Inr lib"
    by (auto simp: scan_all_append split: sum.splits)
  from scan_entry_fields [OF st snoc.prems(2)] snoc.IH [OF l0] show ?case by auto
qed

lemma scan_entry_app_fields:
  assumes "scan_entry_app lib h k = Some e"
  shows "(\<exists>e'. lib k = Some e' \<and> id_field e = id_field e' \<and> projectName e = projectName e')
       \<or> (lib k = None \<and> id_field e = None \<and> projectName e = None)"
  using assms
  by (auto simp: scan_entry_app_def Let_def split: if_splits option.splits)

lemma app_entry_fields:
  "foldl scan_entry_app Map.empty hs k = Some e \<Longrightarrow> id_field e = None \<and> projectName e = None"
proof (induction hs arbitrary: e rule: rev_induct)
  case Nil
  then show ?case by simp
next
  case (snoc h hs)
  then have "scan_entry_app (foldl scan_entry_app Map.empty hs) h k = Some e" by simp
  from scan_entry_app_fields [OF this] snoc.IH show ?case by auto
qed

text \<open>
  Claim C9, as the code has it. An entry made by the strict scanner carries, in its \<open>id\<close>
  field, the sequence ID it is filed under, and as \<open>projectName\<close> the project name
  captured from a file of that sequence in the scanned directory. An entry made by the
  application's scanner has neither field: it is \<open>{ assets }\<close>, and its sequence ID is
  only the key it is filed under.
\<close>

theorem scanned_entry_fields:
  "(scanSequences d = Inr lib \<and> lib k = Some e \<longrightarrow>
      id_field e = Some k
      \<and> (\<exists>h\<in>set (yielded (contents d)). kind h = File
            \<and> (\<exists>pn t. strict_captures (name h) = Some (pn, k, t) \<and> projectName e = Some pn)))
   \<and> (scanSequences_app d = Inr lib' \<and> lib' k = Some e' \<longrightarrow>
      id_field e' = None \<and> projectName e' = None)"
proof (rule conjI; rule impI)
  assume "scanSequences d = Inr lib \<and> lib k = Some e"
  then have "scan_all Map.empty (yielded (contents d)) = Inr lib" and "lib k = Some e"
    by (auto simp: scanSequences_def dest: scan_loop_yielded)
  then show "id_field e = Some k
      \<and> (\<exists>h\<in>set (yielded (contents d)). kind h = File
            \<and> (\<exists>pn t. strict_captures (name h) = Some (pn, k, t) \<and> projectName e = Some pn))"
    by (rule strict_entry_fields)
next
  assume "scanSequences_app d = Inr lib' \<and> lib' k = Some e'"
  then have "foldl scan_entry_app Map.empty (yielded (contents d)) k = Some e'"
    by (auto simp: scanSequences_app_def dest: scan_loop_app_yielded)
  then show "id_field e' = None \<and> projectName e' = None"
    by (rule app_entry_fields)
qed

lemma scan_strict_example:
  "scanSequences (folder [fileNamed ''Project_X_Seq01_Script.txt'']) = Inr [''01'' \<mapsto> strict_script]"
  by (simp add: scanSequences_def folder_def fileNamed_def scan_entry_def strict_captures_def
      SEQ_PATTERN_def assign_def set_prop_def read_only_in_handle_def empty_object_def strict_script_def char_defs)

lemma scan_app_example:
  "scanSequences_app (folder [fileNamed ''Seq01_Prompt.txt'']) = Inr [''01'' \<mapsto> prompt_only]"
  by (simp add: scanSequences_app_def folder_def fileNamed_def scan_entry_app_def scan_seqId_def
      scan_pattern_def assign_def set_prop_def read_only_in_handle_def empty_object_def prompt_only_def endsWith_def char_defs)

theorem scanned_entry_fields_witness:
  "scanSequences (folder [fileNamed ''Project_X_Seq01_Script.txt'']) = Inr [''01'' \<mapsto> strict_script]
   \<and> id_field strict_script = Some ''01''
   \<and> (\<exists>h\<in>set (yielded (contents (folder [fileNamed ''Project_X_Seq01_Script.txt'']))). kind h = File
         \<and> (\<exists>pn t. strict_captures (name h) = Some (pn, ''01'', t) \<and> projectName strict_script = Some pn))
   \<and> scanSequences_app (folder [fileNamed ''Seq01_Prompt.txt'']) = Inr [''01'' \<mapsto> prompt_only]
   \<and> id_field prompt_only = None \<and> projectName prompt_only = None"
  using scan_strict_example scan_app_example
    scanned_entry_fields [of "folder [fileNamed ''Project_X_Seq01_Script.txt'']" "[''01'' \<mapsto> strict_script]"
      "''01''" strict_script "[''01'' \<mapsto> prompt_only]" prompt_only]
    scanned_entry_fields [of "folder [fileNamed ''Seq01_Prompt.txt'']" "[''01'' \<mapsto> strict_script]"
      "''01''" strict_script "[''01'' \<mapsto> prompt_only]" prompt_only]
  by simp

text \<open>An entry of the application's scanner: no \<open>id\<close>, no \<open>projectName\<close>.\<close>

theorem app_entry_without_id_counterexample:
  "scanSequences_app (folder [fileNamed ''Seq01_Prompt.txt''])
     = Inr [''01'' \<mapsto> \<lparr>id_field = None, projectName = None,
              assets = \<lparr>props = [''prompt'' \<mapsto> fileNamed ''Seq01_Prompt.txt''], proto = None\<rparr>\<rparr>]"
  by (simp add: scanSequences_app_def folder_def fileNamed_def scan_entry_app_def scan_seqId_def
      scan_pattern_def assign_def set_prop_def read_only_in_handle_def empty_object_def endsWith_def char_defs)

section \<open>Merging the files of a sequence\<close>

lemma merged_step:
  assumes fresh: "assets (fresh h) = empty_object"
    and inv: "merged slot hs lib"
  shows "merged slot (hs @ [h]) (file_under slot fresh lib h)"
proof (cases "slot h")
  case None
  then have "file_under slot fresh lib h = lib" by (simp add: file_under_def)
  with inv None show ?thesis
    by (simp add: merged_def)
next
  case (Some p)
  obtain sid c where p: "p = (sid, c)" by (cases p)
  define e0 where "e0 = (case lib sid of None \<Rightarrow> fresh h | Some e \<Rightarrow> e)"
  have st: "file_under slot fresh lib h = lib(sid \<mapsto> put_asset c h e0)"
    using Some p by (simp add: file_under_def e0_def)
  have e0_props: "props (assets e0) k = find (\<lambda>h. slot h = Some (sid, Some k)) (rev hs)" for k
  proof (cases "lib sid")
    case None
    with inv have "\<forall>h'\<in>set hs. \<forall>c. slot h' \<noteq> Some (sid, c)" by (simp add: merged_def)
    then have "find (\<lambda>h. slot h = Some (sid, Some k)) (rev hs) = None"
      by (auto simp: find_None_iff)
    with None fresh show ?thesis by (simp add: e0_def empty_object_def)
  next
    case (Some e)
    with inv show ?thesis by (simp add: merged_def e0_def)
  qed
  have e0_proto: "proto (assets e0) = None"
  proof (cases "lib sid")
    case None
    with fresh show ?thesis by (simp add: e0_def empty_object_def)
  next
    case (Some e)
    with inv show ?thesis by (simp add: merged_def e0_def)
  qed
  have new_props: "props (assets (put_asset c h e0)) k
      = find (\<lambda>h. slot h = Some (sid, Some k)) (rev (hs @ [h]))" for k
    using e0_props [of k] \<open>slot h = Some p\<close> p
    by (cases c) (auto simp: put_asset_def set_prop_def)
  have new_proto: "proto (assets (put_asset c h e0)) = None"
    using e0_proto by (cases c) (auto simp: put_asset_def set_prop_def)
  show ?thesis
    unfolding merged_def
  proof (intro allI)
    fix sid'
    show "(file_under slot fresh lib h sid' = None
            \<longrightarrow> (\<forall>h'\<in>set (hs @ [h]). \<forall>c. slot h' \<noteq> Some (sid', c)))
        \<and> (\<forall>e. file_under slot fresh lib h sid' = Some e \<longrightarrow>
              (\<exists>h'\<in>set (hs @ [h]). \<exists>c. slot h' = Some (sid', c))
              \<and> (\<forall>k. props (assets e) k = find (\<lambda>h. slot h = Some (sid', Some k)) (rev (hs @ [h])))
              \<and> proto (assets e) = None)"
    proof (cases "sid' = sid")
      case True
      with st new_props new_proto \<open>slot h = Some p\<close> p show ?thesis by auto
    next
      case False
      with inv [unfolded merged_def, rule_format, of sid'] st \<open>slot h = Some p\<close> p
      show ?thesis by auto
    qed
  qed
qed

lemma merged_foldl:
  assumes fresh: "\<And>h. assets (fresh h) = empty_object"
  shows "merged slot hs (foldl (file_under slot fresh) Map.empty hs)"
proof (induction hs rule: rev_induct)
  case Nil
  show ?case by (simp add: merged_def)
next
  case (snoc h hs)
  have "merged slot (hs @ [h]) (file_under slot fresh (foldl (file_under slot fresh) Map.empty hs) h)"
    using fresh snoc.IH by (rule merged_step)
  then show ?case by simp
qed

text \<open>The application's scanner files every handle by plain property writes.\<close>

lemma scan_entry_app_slot: "scan_entry_app lib h = file_under app_slot fresh_app lib h"
  by (auto simp: scan_entry_app_def app_slot_def file_under_def put_asset_def fresh_app_def
      Let_def split: option.splits)

lemma scan_app_merges:
  assumes "scanSequences_app d = Inr lib"
  shows "merged app_slot (yielded (contents d)) lib"
proof -
  have "scan_entry_app = file_under app_slot fresh_app"
    by (rule ext, rule ext) (rule scan_entry_app_slot)
  moreover have "merged app_slot (yielded (contents d))
      (foldl (file_under app_slot fresh_app) Map.empty (yielded (contents d)))"
    by (rule merged_foldl) (simp add: fresh_app_def)
  ultimately show ?thesis
    using assms by (auto simp: scanSequences_app_def dest!: scan_loop_app_yielded)
qed

text \<open>
  So does the strict scanner, as long as no file of the kind \<open>__proto__\<close> has replaced the
  prototype of an assets object: then no assignment throws.
\<close>

lemma scan_entry_plain:
  assumes "\<forall>sid. strict_slot h \<noteq> Some (sid, Some ''__proto__'')"
    and "\<forall>k e. lib k = Some e \<longrightarrow> proto (assets e) = None"
  shows "scan_entry lib h = Inr (file_under strict_slot fresh_strict lib h)"
proof (cases "strict_slot h")
  case None
  then show ?thesis
    by (auto simp: scan_entry_def strict_slot_def file_under_def split: option.splits if_splits)
next
  case (Some p)
  then obtain pn sid t where f: "kind h = File" and c: "strict_captures (name h) = Some (pn, sid, t)"
    and p: "p = (sid, Some (toLowerCase t))"
    by (auto simp: strict_slot_def split: option.splits if_splits)
  from assms(1) Some p have t: "toLowerCase t \<noteq> ''__proto__''" by auto
  define e0 where "e0 = (case lib sid of None \<Rightarrow> fresh_strict h | Some e \<Rightarrow> e)"
  have "proto (assets e0) = None"
    using assms(2) c by (cases "lib sid") (auto simp: e0_def fresh_strict_def empty_object_def)
  with t have a: "assign (assets e0) (toLowerCase t) h = Inr (set_prop (assets e0) (toLowerCase t) h)"
    by (simp add: assign_def)
  have e0': "e0 = (case lib sid of
                     None \<Rightarrow> \<lparr>id_field = Some sid, projectName = Some pn, assets = empty_object\<rparr>
                   | Some e \<Rightarrow> e)"
    using c by (cases "lib sid") (simp_all add: e0_def fresh_strict_def)
  have "scan_entry lib h = Inr (lib(sid \<mapsto> e0\<lparr>assets := set_prop (assets e0) (toLowerCase t) h\<rparr>))"
    using f c a by (simp add: scan_entry_def Let_def e0' [symmetric])
  moreover have "file_under strict_slot fresh_strict lib h
      = lib(sid \<mapsto> e0\<lparr>assets := set_prop (assets e0) (toLowerCase t) h\<rparr>)"
    using Some p by (simp add: file_under_def put_asset_def e0_def)
  ultimately show ?thesis by simp
qed

lemma file_under_plain:
  assumes "assets (fresh h) = empty_object"
    and "\<forall>k e. lib k = Some e \<longrightarrow> proto (assets e) = None"
  shows "\<forall>k e. file_under slot fresh lib h k = Some e \<longrightarrow> proto (assets e) = None"
  using assms
  by (auto simp: file_under_def put_asset_def set_prop_def empty_object_def
      split: option.splits if_splits)

lemma fresh_strict_assets: "assets (fresh_strict h) = empty_object"
  by (simp add: fresh_strict_def split: option.splits)

lemma scan_all_plain:
  assumes "\<forall>h\<in>set hs. \<forall>sid. strict_slot h \<noteq> Some (sid, Some ''__proto__'')"
    and "\<forall>k e. lib k = Some e \<longrightarrow> proto (assets e) = None"
  shows "scan_all lib hs = Inr (foldl (file_under strict_slot fresh_strict) lib hs)"
  using assms
proof (induction hs arbitrary: lib)
  case Nil
  show ?case by simp
next
  case (Cons h hs)
  have st: "scan_entry lib h = Inr (file_under strict_slot fresh_strict lib h)"
    using Cons.prems by (intro scan_entry_plain) auto
  have "\<forall>k e. file_under strict_slot fresh_strict lib h k = Some e \<longrightarrow> proto (assets e) = None"
    using fresh_strict_assets Cons.prems(2) by (rule file_under_plain)
  with Cons.IH [of "file_under strict_slot fresh_strict lib h"] Cons.prems(1) st
  show ?case by simp
qed

lemma scan_strict_merges:
  assumes "scanSequences d = Inr lib"
    and "\<forall>h\<in>set (yielded (contents d)). \<forall>sid. strict_slot h \<noteq> Some (sid, Some ''__proto__'')"
  shows "merged strict_slot (yielded (contents d)) lib"
proof -
  from assms(1) have "scan_all Map.empty (yielded (contents d)) = Inr lib"
    by (auto simp: scanSequences_def dest: scan_loop_yielded)
  moreover have "scan_all Map.empty (yielded (contents d))
      = Inr (foldl (file_under strict_slot fresh_strict) Map.empty (yielded (contents d)))"
    using assms(2) by (intro scan_all_plain) auto
  ultimately have "lib = foldl (file_under strict_slot fresh_strict) Map.empty (yielded (contents d))"
    by simp
  then show ?thesis
    using merged_foldl [of fresh_strict strict_slot "yielded (contents d)"] fresh_strict_assets
    by simp
qed

text \<open>
  With such a file the scan can throw: once the file handle is the prototype, a file of
  the kind \<open>Name\<close> in the same sequence makes the assignment fail, and no Library is returned.
\<close>

lemma read_only_key_after_proto_throws:
  "scanSequences (folder [fileNamed ''Project_X_Seq01___proto__.txt'',
                          fileNamed ''Project_X_Seq01_Name.txt'']) = Inl TypeError"
  by (simp add: scanSequences_def folder_def fileNamed_def scan_entry_def strict_captures_def
      SEQ_PATTERN_def assign_def set_prop_def read_only_in_handle_def empty_object_def char_defs)

text \<open>
  Claim C1, evaluated on a directory with two files of sequence 01 whose kinds are
  \<open>__proto__\<close> and \<open>Script\<close>. Both are filed under the one entry of the sequence, but the
  assignment \<open>assets['__proto__'] = entry\<close> replaces the prototype of the assets object
  and adds no key: the assets map ends up with the single key \<open>script\<close>. For every other
  kind, and for the application's scanner throughout, the lemmas above give what the claim
  says: one entry for each sequence ID, a later file merged into it, the last file of a
  kind winning.
\<close>

theorem proto_kind_is_not_a_key:
  "strict_slot (fileNamed ''Project_X_Seq01___proto__.txt'') = Some (''01'', Some ''__proto__'')
   \<and> strict_slot (fileNamed ''Project_X_Seq01_Script.txt'') = Some (''01'', Some ''script'')
   \<and> scanSequences (folder [fileNamed ''Project_X_Seq01___proto__.txt'',
                              fileNamed ''Project_X_Seq01_Script.txt''])
       = Inr [''01'' \<mapsto> \<lparr>id_field = Some ''01'', projectName = Some ''X'',
                assets = \<lparr>props = [''script'' \<mapsto> fileNamed ''Project_X_Seq01_Script.txt''],
                          proto = Some (fileNamed ''Project_X_Seq01___proto__.txt'')\<rparr>\<rparr>]"
  by (simp add: scanSequences_def folder_def fileNamed_def scan_entry_def strict_slot_def
      strict_captures_def SEQ_PATTERN_def assign_def set_prop_def read_only_in_handle_def empty_object_def char_defs)

text \<open>Two files of one sequence with the kinds \<open>Script\<close> and \<open>Prompt\<close>, in either order.\<close>

lemma two_kinds_two_keys:
  "scanSequences (folder [fileNamed ''Project_X_Seq01_Script.txt'', fileNamed ''Project_X_Seq01_Prompt.txt''])
     = Inr [''01'' \<mapsto> \<lparr>id_field = Some ''01'', projectName = Some ''X'',
              assets = \<lparr>props = [''script'' \<mapsto> fileNamed ''Project_X_Seq01_Script.txt'',
                                 ''prompt'' \<mapsto> fileNamed ''Project_X_Seq01_Prompt.txt''],
                        proto = None\<rparr>\<rparr>]
   \<and> scanSequences_app (folder [fileNamed ''Seq01_Prompt.txt'', fileNamed ''Seq01_Script.txt''])
     = Inr [''01'' \<mapsto> \<lparr>id_field = None, projectName = None,
              assets = \<lparr>props = [''prompt'' \<mapsto> fileNamed ''Seq01_Prompt.txt'',
                                 ''script'' \<mapsto> fileNamed ''Seq01_Script.txt''],
                        proto = None\<rparr>\<rparr>]"
  by (simp add: scanSequences_def scanSequences_app_def folder_def fileNamed_def scan_entry_def
      scan_entry_app_def strict_captures_def scan_seqId_def SEQ_PATTERN_def scan_pattern_def
      assign_def set_prop_def read_only_in_handle_def empty_object_def endsWith_def char_defs)

end
